theory Spec2Isabelle
  imports Main "HOL-Library.Sublist" "HOL-Library.Word"
begin

section \<open>Python strings on the code points below 256\<close>

text \<open>
  A query text is a Python \<open>str\<close>. It is modelled as a \<open>string\<close> whose characters are the
  code points U+0000 to U+00FF; \<open>of_char\<close> gives the code point. The three tables below are
  those of CPython on that range: \<open>str.isspace\<close> (also the class \<open>\s\<close> of \<open>re\<close> and the
  separators of \<open>str.strip\<close> and \<open>str.split\<close>), the class \<open>\w\<close> of \<open>re\<close> on \<open>str\<close>
  patterns (\<open>str.isalnum\<close> or the underscore), and \<open>str.lower\<close>.
\<close>

definition py_isspace :: "char \<Rightarrow> bool" where
  "py_isspace c =
     (let n = (of_char c :: nat)
      in (9 \<le> n \<and> n \<le> 13) \<or> (28 \<le> n \<and> n \<le> 32) \<or> n = 133 \<or> n = 160)"

definition is_word :: "char \<Rightarrow> bool" where
  "is_word c =
     (let n = (of_char c :: nat)
      in (48 \<le> n \<and> n \<le> 57) \<or> (65 \<le> n \<and> n \<le> 90) \<or> n = 95 \<or> (97 \<le> n \<and> n \<le> 122)
         \<or> n = 170 \<or> n = 178 \<or> n = 179 \<or> n = 181 \<or> n = 185 \<or> n = 186
         \<or> (188 \<le> n \<and> n \<le> 190) \<or> (192 \<le> n \<and> n \<le> 214) \<or> (216 \<le> n \<and> n \<le> 246)
         \<or> (248 \<le> n \<and> n \<le> 255))"

definition py_lower_char :: "char \<Rightarrow> char" where
  "py_lower_char c =
     (let n = (of_char c :: nat)
      in if (65 \<le> n \<and> n \<le> 90) \<or> (192 \<le> n \<and> n \<le> 222 \<and> n \<noteq> 215)
         then char_of (n + 32) else c)"

definition py_lower :: "string \<Rightarrow> string" where
  "py_lower s = map py_lower_char s"

definition py_strip :: "string \<Rightarrow> string" where
  "py_strip s = rev (dropWhile py_isspace (rev (dropWhile py_isspace s)))"

datatype py_exception =
    HTTPException (status_code: nat) (detail: string)
  | IndexError
  | ValueError string
  | DriverError string

text \<open>\<open>s.split(None, 1)[0]\<close>: the first whitespace-delimited token; the index raises
  when the split is empty.\<close>

definition py_split_first :: "string \<Rightarrow> py_exception + string" where
  "py_split_first s =
     (case dropWhile py_isspace s of
        [] \<Rightarrow> Inl IndexError
      | c # cs \<Rightarrow> Inr (takeWhile (\<lambda>x. \<not> py_isspace x) (c # cs)))"

section \<open>The three compiled patterns\<close>

text \<open>
  The matchers scan a text from left to right. Each one is given the remaining text and
  \<open>pw\<close>, whether the character before it is a word character (\<open>False\<close> at the start
  of the text), which is what \<open>\b\<close> looks at. All three patterns are compiled with
  \<open>re.IGNORECASE\<close> and written in lower case: a character of the text matches a letter of
  the pattern when its lower case is that letter.
\<close>

definition word_boundary :: "bool \<Rightarrow> string \<Rightarrow> bool" where
  "word_boundary pw s = (pw \<noteq> (case s of [] \<Rightarrow> False | c # _ \<Rightarrow> is_word c))"

definition ci_prefix :: "string \<Rightarrow> string \<Rightarrow> bool" where
  "ci_prefix pat s = (length pat \<le> length s \<and> map py_lower_char (take (length pat) s) = pat)"

definition FORBIDDEN_WORDS :: "string list" where
  "FORBIDDEN_WORDS =
     [''create'', ''alter'', ''drop'', ''truncate'', ''grant'', ''revoke'',
      ''xp_'', ''sp_configure'', ''openrowset'', ''openquery'']"

text \<open>\<open>\b(create|...|openquery)\b\<close> matched at the head of \<open>s\<close>.\<close>

definition forbidden_at :: "bool \<Rightarrow> string \<Rightarrow> bool" where
  "forbidden_at pw s =
     (word_boundary pw s \<and>
      (\<exists>kw \<in> set FORBIDDEN_WORDS.
         ci_prefix kw s \<and>
         word_boundary (is_word (last (take (length kw) s))) (drop (length kw) s)))"

text \<open>\<open>_FORBIDDEN.search\<close>: is there a match at some position.\<close>

fun FORBIDDEN_search :: "bool \<Rightarrow> string \<Rightarrow> bool" where
  "FORBIDDEN_search pw [] = False"
| "FORBIDDEN_search pw (c # cs) =
     (forbidden_at pw (c # cs) \<or> FORBIDDEN_search (is_word c) cs)"

text \<open>
  \<open>\bdbo\.(\w+)\b\<close> matched at the head of \<open>s\<close>: the identifier and the text after the
  match. The greedy \<open>\w+\<close> takes the whole run of word characters; the closing \<open>\b\<close>
  holds there, and at no shorter run (lemma \<open>obj_ref_closing_boundary\<close>).
\<close>

definition obj_ref_at :: "bool \<Rightarrow> string \<Rightarrow> (string \<times> string) option" where
  "obj_ref_at pw s =
     (if word_boundary pw s \<and> ci_prefix ''dbo.'' s \<and> takeWhile is_word (drop 4 s) \<noteq> []
      then Some (takeWhile is_word (drop 4 s), dropWhile is_word (drop 4 s))
      else None)"

text \<open>\<open>_OBJ_REF.finditer\<close>: group 1 of the successive non-overlapping matches.\<close>

function OBJ_REF_finditer :: "bool \<Rightarrow> string \<Rightarrow> string list" where
  "OBJ_REF_finditer pw s =
     (case obj_ref_at pw s of
        Some (ident, rest) \<Rightarrow> ident # OBJ_REF_finditer True rest
      | None \<Rightarrow> (case s of [] \<Rightarrow> [] | c # cs \<Rightarrow> OBJ_REF_finditer (is_word c) cs))"
  by pat_completeness auto
termination
proof (relation "measure (\<lambda>(pw, s). length s)", goal_cases)
  case 1
  show ?case by simp
next
  case (2 pw s c cs)
  then show ?case by simp
next
  case (3 pw s x2 ident rest)
  then have y: "rest = dropWhile is_word (drop 4 s)" and p: "ci_prefix ''dbo.'' s"
    by (auto simp: obj_ref_at_def split: if_splits)
  from p have "4 \<le> length s" by (simp add: ci_prefix_def)
  moreover have "length rest \<le> length (drop 4 s)" unfolding y by (rule length_dropWhile_le)
  ultimately show ?case by simp
qed

declare OBJ_REF_finditer.simps [simp del]

text \<open>
  \<open>\bexec\s+(dbo\.(\w+))\b\<close> matched at the head of \<open>s\<close>: group 1, the text of the
  reference as written (schema qualifier included).
\<close>

definition exec_ref_at :: "bool \<Rightarrow> string \<Rightarrow> string option" where
  "exec_ref_at pw s =
     (let ws = takeWhile py_isspace (drop 4 s);
          r = dropWhile py_isspace (drop 4 s)
      in if word_boundary pw s \<and> ci_prefix ''exec'' s \<and> ws \<noteq> [] \<and> ci_prefix ''dbo.'' r
            \<and> takeWhile is_word (drop 4 r) \<noteq> []
         then Some (take 4 r @ takeWhile is_word (drop 4 r))
         else None)"

text \<open>\<open>_EXEC_REF.search\<close>: group 1 of the leftmost match.\<close>

fun EXEC_REF_search :: "bool \<Rightarrow> string \<Rightarrow> string option" where
  "EXEC_REF_search pw [] = None"
| "EXEC_REF_search pw (c # cs) =
     (case exec_ref_at pw (c # cs) of
        Some g \<Rightarrow> Some g
      | None \<Rightarrow> EXEC_REF_search (is_word c) cs)"

section \<open>The validator\<close>

definition ALLOWED_OBJECTS :: "string set" where
  "ALLOWED_OBJECTS =
     {''dbo.AppMeta'', ''dbo.Snapshots'', ''dbo.NoteRules'', ''dbo.AppUsers'',
      ''dbo.AppLookupValues'', ''dbo.UstaDefteri'', ''dbo.TipBuzulmeModel'',
      ''dbo.LoomCutMap'', ''dbo.TypeSelvedgeMap'', ''dbo.BlockedLooms'',
      ''dbo.DummyLooms'', ''dbo.ItemaAyar''}"

definition ALLOWED_PROCS :: "string set" where
  "ALLOWED_PROCS = {''dbo.sp_ItemaOtomatikAyar'', ''dbo.sp_ItemaTipOzelAyar''}"

definition ALLOWED_VERBS :: "string set" where
  "ALLOWED_VERBS = {''select'', ''insert'', ''update'', ''delete'', ''exec'', ''with''}"

text \<open>
  \<open>objs\<close> is a Python set of strings, and the loop over it raises at the first element
  that is not allowed. The order in which a set of strings is iterated follows the hashes of
  the strings, which change from one process to the next: \<open>order\<close> stands for it, the
  elements being visited by increasing \<open>order\<close>.
\<close>

definition set_iter :: "(string \<Rightarrow> nat) \<Rightarrow> string list \<Rightarrow> string list" where
  "set_iter order xs = sort_key order (remdups xs)"

definition not_allowed :: "string \<Rightarrow> bool" where
  "not_allowed obj = (obj \<notin> ALLOWED_OBJECTS \<and> obj \<notin> ALLOWED_PROCS)"

text \<open>Lines 106 to 109: the object allow-list check.\<close>

definition check_objects :: "(string \<Rightarrow> nat) \<Rightarrow> string \<Rightarrow> py_exception + unit" where
  "check_objects order q =
     (let objs = set_iter order (map (\<lambda>g. ''dbo.'' @ g) (OBJ_REF_finditer False q))
      in case find not_allowed objs of
           Some obj \<Rightarrow> Inl (HTTPException 403 (''Object not allowed: '' @ obj))
         | None \<Rightarrow> Inr ())"

text \<open>Lines 111 to 117: the procedure check of an \<open>exec\<close>.\<close>

definition check_exec :: "string \<Rightarrow> string \<Rightarrow> py_exception + unit" where
  "check_exec head q =
     (if head = ''exec'' then
        (case EXEC_REF_search False q of
           None \<Rightarrow> Inl (HTTPException 403 ''EXEC only allowed for dbo stored procedures'')
         | Some proc \<Rightarrow>
             if proc \<notin> ALLOWED_PROCS
             then Inl (HTTPException 403 (''Procedure not allowed: '' @ proc))
             else Inr ())
      else Inr ())"

definition validate_query :: "(string \<Rightarrow> nat) \<Rightarrow> string \<Rightarrow> py_exception + unit" where
  "validate_query order query =
     (let q = py_strip query in
      if q = [] then Inl (HTTPException 400 ''Empty query'')
      else if FORBIDDEN_search False q then Inl (HTTPException 403 ''Forbidden SQL keyword'')
      else
        (case py_split_first q of
           Inl e \<Rightarrow> Inl e
         | Inr tok \<Rightarrow>
             (let head = py_lower tok in
              if head \<notin> ALLOWED_VERBS
              then Inl (HTTPException 403 ''Only SELECT/INSERT/UPDATE/DELETE/EXEC are allowed'')
              else
                (case check_objects order q of
                   Inl e \<Rightarrow> Inl e
                 | Inr u \<Rightarrow> check_exec head q))))"

section \<open>Values, and base64 as the standard library computes it\<close>

text \<open>
  A parameter or a cell of a result row is a Python value: a JSON scalar of the request, or
  what the driver returns. \<open>isinstance(v, (bytes, bytearray, memoryview))\<close> tells the three
  binary types from the rest.
\<close>

type_synonym byte = "8 word"

datatype pyval =
    PNone
  | PBool bool
  | PInt int
  | PFloat "64 word"
  | PStr string
  | PBytes "byte list"
  | PByteArray "byte list"
  | PMemoryView "byte list"

definition b64_alphabet :: string where
  "b64_alphabet = ''ABCDEFGHIJKLMNOPQRSTUVWXYZabcdefghijklmnopqrstuvwxyz0123456789+/''"

definition b64_char :: "nat \<Rightarrow> char" where
  "b64_char n = b64_alphabet ! n"

text \<open>\<open>binascii.b2a_base64(s, newline=False)\<close>, which \<open>base64.b64encode\<close> returns:
  three bytes give four characters, and the last group is padded with \<open>=\<close>.\<close>

fun b64encode :: "byte list \<Rightarrow> string" where
  "b64encode [] = []"
| "b64encode [a] =
     [b64_char (unat a div 4), b64_char (unat a mod 4 * 16), CHR ''='', CHR ''='']"
| "b64encode [a, b] =
     [b64_char (unat a div 4), b64_char (unat a mod 4 * 16 + unat b div 16),
      b64_char (unat b mod 16 * 4), CHR ''='']"
| "b64encode (a # b # c # bs) =
     [b64_char (unat a div 4), b64_char (unat a mod 4 * 16 + unat b div 16),
      b64_char (unat b mod 16 * 4 + unat c div 64), b64_char (unat c mod 64)]
     @ b64encode bs"

text \<open>The decoding table \<open>table_a2b_base64\<close>: the value of a character of the alphabet.\<close>

definition b64_index :: "char \<Rightarrow> nat option" where
  "b64_index c = map_of (zip b64_alphabet [0..<64]) c"

datatype binascii_error = IncorrectPadding | InvalidLength nat

text \<open>
  \<open>binascii.a2b_base64\<close> without \<open>strict_mode\<close> (CPython 3.11), the loop over the input:
  \<open>quad_pos\<close> counts the characters of the current group of four, \<open>leftchar\<close> holds the
  bits not yet written, \<open>pads\<close> counts the \<open>=\<close> seen after two characters of a group, and
  \<open>out\<close> is the output so far. A character outside the alphabet is skipped; a complete
  padding ends the decoding, whatever follows.
\<close>

fun a2b_base64 :: "nat \<Rightarrow> nat \<Rightarrow> nat \<Rightarrow> string \<Rightarrow> byte list \<Rightarrow> binascii_error + byte list" where
  "a2b_base64 quad_pos leftchar pads [] out =
     (if quad_pos = 0 then Inr out
      else if quad_pos = 1 then Inl (InvalidLength (length out div 3 * 4 + 1))
      else Inl IncorrectPadding)"
| "a2b_base64 quad_pos leftchar pads (c # cs) out =
     (if c = CHR ''='' then
        (if 2 \<le> quad_pos \<and> 4 \<le> quad_pos + (pads + 1) then Inr out
         else a2b_base64 quad_pos leftchar (if 2 \<le> quad_pos then pads + 1 else pads) cs out)
      else
        (case b64_index c of
           None \<Rightarrow> a2b_base64 quad_pos leftchar pads cs out
         | Some v \<Rightarrow>
             if quad_pos = 0 then a2b_base64 1 v 0 cs out
             else if quad_pos = 1 then
               a2b_base64 2 (v mod 16) 0 cs (out @ [word_of_nat (leftchar * 4 + v div 16)])
             else if quad_pos = 2 then
               a2b_base64 3 (v mod 4) 0 cs (out @ [word_of_nat (leftchar * 16 + v div 4)])
             else
               a2b_base64 0 0 0 cs (out @ [word_of_nat (leftchar * 64 + v)])))"

text \<open>\<open>base64.b64decode(s)\<close> on a \<open>str\<close>: the text is first encoded as ASCII, which raises
  \<open>ValueError\<close> on a code point above 127.\<close>

definition b64decode :: "string \<Rightarrow> (string + binascii_error) + byte list" where
  "b64decode s =
     (if \<exists>c \<in> set s. 128 \<le> (of_char c :: nat)
      then Inl (Inl ''string argument should contain only ASCII characters'')
      else (case a2b_base64 0 0 0 s [] of Inl e \<Rightarrow> Inl (Inr e) | Inr b \<Rightarrow> Inr b))"

section \<open>The parameter adapter and the result encoder\<close>

text \<open>The body of the loop of \<open>_adapt_params\<close>: a string that decodes is replaced by its
  bytes; the exception of one that does not is passed over.\<close>

definition adapt_one :: "pyval \<Rightarrow> pyval" where
  "adapt_one p =
     (case p of
        PStr s \<Rightarrow> (case b64decode s of Inr b \<Rightarrow> PBytes b | Inl e \<Rightarrow> PStr s)
      | _ \<Rightarrow> p)"

text \<open>\<open>for i, p in enumerate(out): ... out[i] = ...\<close>\<close>

function adapt_loop :: "nat \<Rightarrow> pyval list \<Rightarrow> pyval list" where
  "adapt_loop i out =
     (if i < length out then adapt_loop (Suc i) (out[i := adapt_one (out ! i)]) else out)"
  by pat_completeness auto
termination
  by (relation "measure (\<lambda>(i, out). length out - i)") auto

declare adapt_loop.simps [simp del]

definition adapt_params :: "string \<Rightarrow> pyval list \<Rightarrow> pyval list" where
  "adapt_params query params =
     (let q = py_lower query in
      if sublist ''insert into dbo.noterules'' q \<and> params \<noteq> []
      then adapt_loop 0 params
      else params)"

definition encode_value :: "pyval \<Rightarrow> pyval" where
  "encode_value v =
     (case v of
        PBytes b \<Rightarrow> PStr (b64encode b)
      | PByteArray b \<Rightarrow> PStr (b64encode b)
      | PMemoryView b \<Rightarrow> PStr (b64encode b)
      | _ \<Rightarrow> v)"

section \<open>The request handler\<close>

record SqlRequest =
  query :: string
  params :: "pyval list"

text \<open>The process environment, read by \<open>os.getenv\<close>.\<close>

type_synonym environ = "string \<rightharpoonup> string"

definition env :: "environ \<Rightarrow> string \<Rightarrow> string \<Rightarrow> string" where
  "env environ name dflt =
     (case environ name of
        None \<Rightarrow> dflt
      | Some v \<Rightarrow> if v = [] then dflt else py_strip v)"

definition require_token :: "environ \<Rightarrow> string option \<Rightarrow> py_exception + unit" where
  "require_token environ x_token =
     (let expected = env environ ''UZMANRAPOR_API_TOKEN'' [] in
      if expected \<noteq> [] then
        (if x_token = None \<or> x_token = Some [] \<or> x_token \<noteq> Some expected
         then Inl (HTTPException 401 ''Unauthorized'')
         else Inr ())
      else Inr ())"

definition sql_conn_str :: "environ \<Rightarrow> string" where
  "sql_conn_str environ =
     (let raw = env environ ''UZMANRAPOR_SQL_CONN_STR'' [] in
      if raw \<noteq> [] then raw
      else
        let driver = env environ ''UZMANRAPOR_SQL_DRIVER'' ''{SQL Server}'';
            server = env environ ''UZMANRAPOR_SQL_SERVER'' ''10.30.9.14,1433'';
            database = env environ ''UZMANRAPOR_SQL_DATABASE'' ''UzmanRaporDB'';
            uid = env environ ''UZMANRAPOR_SQL_UID'' [];
            pwd = env environ ''UZMANRAPOR_SQL_PWD'' [];
            trusted = env environ ''UZMANRAPOR_SQL_TRUSTED'' [];
            parts = [''Driver='' @ driver @ '';'', ''Server='' @ server @ '';'',
                     ''Database='' @ database @ '';'']
        in concat
             (if py_lower trusted \<in> {''1'', ''true'', ''yes''}
              then parts @ [''Trusted_Connection=yes;'']
              else if uid \<noteq> [] \<and> pwd \<noteq> []
              then parts @ [''UID='' @ uid @ '';'', ''PWD='' @ pwd @ '';'']
              else parts @ [''Trusted_Connection=yes;'']))"

text \<open>
  The database driver is outside the program. One request makes each call at most once, so
  the driver is given by what each call does: for a call that can fail, \<open>Some m\<close> (or
  \<open>Inl m\<close>) is a driver exception whose text is \<open>m\<close>. A column description is its name
  \<open>d[0]\<close> and its other entries.
\<close>

type_synonym column_desc = "string \<times> pyval list"

record driver =
  connect :: "string \<Rightarrow> string option"
  conn_cursor :: "string option"
  cur_execute :: "string \<Rightarrow> pyval list \<Rightarrow> string option"
  cur_description :: "column_desc list option"
  cur_fetchall :: "string + pyval list list"
  conn_commit :: "string option"
  cur_rowcount :: "int option"
  conn_close :: "string option"

text \<open>The calls made to the driver, in order.\<close>

datatype driver_call =
    Connect string
  | Cursor
  | Execute string "pyval list"
  | Fetchall
  | Commit
  | Close

text \<open>The response dictionary: \<open>rowcount\<close> and \<open>affected_rows\<close> are keys that may be
  absent.\<close>

record sql_response =
  columns :: "string list"
  rows :: "pyval list list"
  rowcount :: "nat option"
  affected_rows :: "int option"

text \<open>Lines 161 to 164: the statement returned rows.\<close>

definition sql_rows ::
  "driver \<Rightarrow> column_desc list \<Rightarrow> driver_call list
     \<Rightarrow> (py_exception + sql_response) \<times> driver_call list"
where
  "sql_rows d descr calls =
     (let cols = map fst descr in
      case cur_fetchall d of
        Inl m \<Rightarrow> (Inl (DriverError m), calls @ [Fetchall])
      | Inr rs \<Rightarrow>
          (let data_rows = map (map encode_value) rs
           in (Inr \<lparr>columns = cols, rows = data_rows, rowcount = Some (length data_rows),
                     affected_rows = None\<rparr>,
               calls @ [Fetchall])))"

text \<open>Lines 166 to 168: it did not.\<close>

definition sql_mutation ::
  "driver \<Rightarrow> driver_call list \<Rightarrow> (py_exception + sql_response) \<times> driver_call list"
where
  "sql_mutation d calls =
     (case conn_commit d of
        Some m \<Rightarrow> (Inl (DriverError m), calls @ [Commit])
      | None \<Rightarrow>
          (let rc = (case cur_rowcount d of Some n \<Rightarrow> n | None \<Rightarrow> - 1)
           in (Inr \<lparr>columns = [], rows = [], rowcount = None, affected_rows = Some rc\<rparr>,
               calls @ [Commit])))"

text \<open>Lines 155 to 168, the body of the \<open>try\<close>: its result, and the calls it made.
  \<open>if cur.description\<close> holds for a description that is neither \<open>None\<close> nor empty.\<close>

definition sql_try ::
  "driver \<Rightarrow> string \<Rightarrow> string \<Rightarrow> pyval list \<Rightarrow> (py_exception + sql_response) \<times> driver_call list"
where
  "sql_try d conn_str q ps =
     (case connect d conn_str of
        Some m \<Rightarrow> (Inl (DriverError m), [Connect conn_str])
      | None \<Rightarrow>
     (case conn_cursor d of
        Some m \<Rightarrow> (Inl (DriverError m), [Connect conn_str, Cursor])
      | None \<Rightarrow>
     (case cur_execute d q ps of
        Some m \<Rightarrow> (Inl (DriverError m), [Connect conn_str, Cursor, Execute q ps])
      | None \<Rightarrow>
     (case cur_description d of
        None \<Rightarrow> sql_mutation d [Connect conn_str, Cursor, Execute q ps]
      | Some descr \<Rightarrow>
          if descr \<noteq> [] then sql_rows d descr [Connect conn_str, Cursor, Execute q ps]
          else sql_mutation d [Connect conn_str, Cursor, Execute q ps]))))"

text \<open>Lines 169 to 172: an \<open>HTTPException\<close> is raised again, any other exception becomes a
  500 whose detail is \<open>str(e)\<close>.\<close>

fun str_of_exception :: "py_exception \<Rightarrow> string" where
  "str_of_exception (DriverError m) = m"
| "str_of_exception (ValueError m) = m"
| "str_of_exception (HTTPException c m) = m"
| "str_of_exception IndexError = ''list index out of range''"

fun except_clauses :: "py_exception + sql_response \<Rightarrow> py_exception + sql_response" where
  "except_clauses (Inr r) = Inr r"
| "except_clauses (Inl (HTTPException c m)) = Inl (HTTPException c m)"
| "except_clauses (Inl e) = Inl (HTTPException 500 (str_of_exception e))"

text \<open>
  The handler of \<open>POST /sql\<close>: the response or the exception it ends with, and the calls
  made to the driver. In the \<open>finally\<close>, \<open>conn\<close> is bound when \<open>pyodbc.connect\<close> has
  returned; otherwise \<open>conn.close()\<close> raises a \<open>NameError\<close> before any call, which is
  passed over like an exception of \<open>close\<close> itself.
\<close>

definition sql ::
  "environ \<Rightarrow> (string \<Rightarrow> nat) \<Rightarrow> driver \<Rightarrow> SqlRequest \<Rightarrow> string option
     \<Rightarrow> (py_exception + sql_response) \<times> driver_call list"
where
  "sql environ order d req x_token =
     (case require_token environ x_token of
        Inl e \<Rightarrow> (Inl e, [])
      | Inr u \<Rightarrow>
     (case validate_query order (query req) of
        Inl e \<Rightarrow> (Inl e, [])
      | Inr u \<Rightarrow>
          (let conn_str = sql_conn_str environ;
               ps = adapt_params (query req) (params req);
               (r, calls) = sql_try d conn_str (query req) ps
           in (except_clauses r,
               if connect d conn_str = None then calls @ [Close] else calls))))"

section \<open>Notions of the specification\<close>

text \<open>The head verb: the first whitespace-delimited token of the trimmed text, in lower
  case.\<close>

definition head_verb :: "string \<Rightarrow> string" where
  "head_verb qtext = py_lower (takeWhile (\<lambda>c. \<not> py_isspace c) (py_strip qtext))"

definition verb_error :: py_exception where
  "verb_error = HTTPException 403 ''Only SELECT/INSERT/UPDATE/DELETE/EXEC are allowed''"

text \<open>The statement is an insert into the one table with a binary column, as the adapter
  recognises it.\<close>

definition noterules_insert :: "string \<Rightarrow> bool" where
  "noterules_insert qtext = sublist ''insert into dbo.noterules'' (py_lower qtext)"

text \<open>A connection was acquired: some \<open>pyodbc.connect\<close> among the calls returned.\<close>

definition acquired :: "driver \<Rightarrow> driver_call list \<Rightarrow> bool" where
  "acquired d calls =
     list_ex (\<lambda>c. case c of Connect cs \<Rightarrow> connect d cs = None | _ \<Rightarrow> False) calls"

text \<open>A connection leaks: one was acquired and \<open>close\<close> is not the last call made.\<close>

definition leaks :: "driver \<Rightarrow> driver_call list \<Rightarrow> bool" where
  "leaks d calls = (acquired d calls \<and> (calls = [] \<or> last calls \<noteq> Close))"

section \<open>Environments and drivers of the examples\<close>

definition secret_environ :: environ where
  "secret_environ = [''UZMANRAPOR_API_TOKEN'' \<mapsto> ''s3cret'']"

definition rows_driver :: driver where
  "rows_driver =
     \<lparr>connect = (\<lambda>cs. None), conn_cursor = None, cur_execute = (\<lambda>q ps. None),
      cur_description = Some [(''Id'', []), (''Body'', [])],
      cur_fetchall = Inr [[PInt 1, PBytes [65]], [PInt 2, PNone]],
      conn_commit = None, cur_rowcount = Some (- 1), conn_close = None\<rparr>"

definition mutation_driver :: driver where
  "mutation_driver =
     \<lparr>connect = (\<lambda>cs. None), conn_cursor = None, cur_execute = (\<lambda>q ps. None),
      cur_description = None, cur_fetchall = Inl ''No results.  Previous SQL was not a query.'',
      conn_commit = None, cur_rowcount = Some 3, conn_close = None\<rparr>"

definition failing_driver :: driver where
  "failing_driver =
     \<lparr>connect = (\<lambda>cs. None), conn_cursor = None,
      cur_execute = (\<lambda>q ps. Some ''Invalid object name''),
      cur_description = None, cur_fetchall = Inl ''No results.'',
      conn_commit = None, cur_rowcount = None, conn_close = Some ''close failed''\<rparr>"

definition read_request :: SqlRequest where
  "read_request = \<lparr>query = ''select Id, Body from dbo.NoteRules'', params = []\<rparr>"

definition write_request :: SqlRequest where
  "write_request = \<lparr>query = ''update dbo.ItemaAyar set Deger = ? where Tip = ?'',
                     params = [PInt 5, PStr ''A1'']\<rparr>"

section \<open>The character tables on the bits of a character\<close>

text \<open>The three tables, read off the eight bits of the code point (\<open>b0\<close> is the lowest):
  these equations are what the evaluation of a concrete text uses.\<close>

lemma is_word_Char [code]:
  "is_word (Char b0 b1 b2 b3 b4 b5 b6 b7) =
     (if b7 then (if b6 then (\<not> b4 \<or> (b3 \<or> (\<not> b2 \<or> (\<not> b1 \<or> \<not> b0)))) else (b5 \<and> (if b4 then (if b3 then (if b2 then (\<not> b1 \<or> \<not> b0) else (if b1 then \<not> b0 else b0)) else (if b2 then (\<not> b1 \<and> b0) else b1)) else (b3 \<and> (\<not> b2 \<and> (b1 \<and> \<not> b0)))))) else (if b6 then (if b5 then (if b4 then (\<not> b3 \<or> (\<not> b2 \<and> (\<not> b1 \<or> \<not> b0))) else (b3 \<or> (b2 \<or> (b1 \<or> b0)))) else (if b4 then (\<not> b3 \<or> (if b2 then (b1 \<and> b0) else (\<not> b1 \<or> \<not> b0))) else (b3 \<or> (b2 \<or> (b1 \<or> b0))))) else (b5 \<and> (b4 \<and> (\<not> b3 \<or> (\<not> b2 \<and> \<not> b1))))))"
  by (cases b0; cases b1; cases b2; cases b3; cases b4; cases b5; cases b6; cases b7; simp add: is_word_def)

lemma py_isspace_Char [code]:
  "py_isspace (Char b0 b1 b2 b3 b4 b5 b6 b7) =
     (if b7 then (\<not> b6 \<and> (if b5 then (\<not> b4 \<and> (\<not> b3 \<and> (\<not> b2 \<and> (\<not> b1 \<and> \<not> b0)))) else (\<not> b4 \<and> (\<not> b3 \<and> (b2 \<and> (\<not> b1 \<and> b0)))))) else (\<not> b6 \<and> (if b5 then (\<not> b4 \<and> (\<not> b3 \<and> (\<not> b2 \<and> (\<not> b1 \<and> \<not> b0)))) else (if b4 then (b3 \<and> b2) else (b3 \<and> (if b2 then \<not> b1 else (b1 \<or> b0)))))))"
  by (cases b0; cases b1; cases b2; cases b3; cases b4; cases b5; cases b6; cases b7; simp add: py_isspace_def)

lemma py_lower_char_Char [code]:
  "py_lower_char (Char b0 b1 b2 b3 b4 b5 b6 b7) =
     (if (if b7 then (b6 \<and> (\<not> b5 \<and> (\<not> b4 \<or> (\<not> b2 \<or> (\<not> b1 \<or> \<not> b0))))) else (b6 \<and> (\<not> b5 \<and> (if b4 then (\<not> b3 \<or> (\<not> b2 \<and> (\<not> b1 \<or> \<not> b0))) else (b3 \<or> (b2 \<or> (b1 \<or> b0)))))))
      then Char b0 b1 b2 b3 b4 True b6 b7 else Char b0 b1 b2 b3 b4 b5 b6 b7)"
  by (cases b0; cases b1; cases b2; cases b3; cases b4; cases b5; cases b6; cases b7; simp add: py_lower_char_def char_of_def bit_Suc_0_iff)

section \<open>Trimming and the first token\<close>

lemma strip_hd_not_space: "py_strip s \<noteq> [] \<Longrightarrow> \<not> py_isspace (hd (py_strip s))"
proof -
  assume ne: "py_strip s \<noteq> []"
  let ?t = "dropWhile py_isspace s"
  have t: "?t \<noteq> []"
    using ne unfolding py_strip_def by (cases "dropWhile py_isspace s") auto
  then have h: "\<not> py_isspace (hd ?t)" by (rule hd_dropWhile)
  have "py_strip s = rev (dropWhile py_isspace (rev ?t))" by (simp add: py_strip_def)
  moreover have "\<exists>ys. ?t = rev (dropWhile py_isspace (rev ?t)) @ ys"
    by (metis rev_append rev_rev_ident takeWhile_dropWhile_id)
  ultimately obtain ys where ys: "?t = py_strip s @ ys" by auto
  with ne have "hd ?t = hd (py_strip s)" by (metis hd_append2)
  with h show ?thesis by simp
qed

text \<open>On a trimmed, non-empty text the split has a first token: the index never raises.\<close>

lemma split_first_strip:
  "py_strip s \<noteq> [] \<Longrightarrow>
   py_split_first (py_strip s) = Inr (takeWhile (\<lambda>c. \<not> py_isspace c) (py_strip s))"
  using strip_hd_not_space[of s]
  by (cases "py_strip s") (auto simp: py_split_first_def)

lemma check_objects_not_verb_error: "check_objects order q \<noteq> Inl verb_error"
  by (simp add: check_objects_def verb_error_def Let_def split: option.split)

lemma check_exec_not_verb_error: "check_exec h q \<noteq> Inl verb_error"
  by (simp add: check_exec_def verb_error_def split: option.split)

section \<open>The verb check\<close>

text \<open>
  Claim C4. For a text that is not empty once trimmed and in which the forbidden-keyword
  search finds nothing, the validator rejects with the 403 of the verb check exactly when
  the head verb is not one of select, insert, update, delete, exec, with, whatever objects
  the text names; when the head verb is one of them, the result is that of the object check
  followed by the procedure check.
\<close>

theorem verb_check:
  assumes "py_strip qtext \<noteq> []" and "\<not> FORBIDDEN_search False (py_strip qtext)"
  shows "validate_query order qtext =
           (if head_verb qtext \<in> ALLOWED_VERBS
            then (case check_objects order (py_strip qtext) of
                    Inl e \<Rightarrow> Inl e
                  | Inr u \<Rightarrow> check_exec (head_verb qtext) (py_strip qtext))
            else Inl verb_error)
         \<and> ((validate_query order qtext = Inl verb_error) = (head_verb qtext \<notin> ALLOWED_VERBS))"
  using assms check_objects_not_verb_error[of order "py_strip qtext"]
    check_exec_not_verb_error[of "head_verb qtext" "py_strip qtext"]
  by (auto simp: validate_query_def Let_def split_first_strip head_verb_def verb_error_def
      split: sum.splits)

theorem verb_check_witness:
  "py_strip ''merge dbo.AppMeta'' \<noteq> []
   \<and> \<not> FORBIDDEN_search False (py_strip ''merge dbo.AppMeta'')
   \<and> head_verb ''merge dbo.AppMeta'' \<notin> ALLOWED_VERBS
   \<and> validate_query length ''merge dbo.AppMeta'' = Inl verb_error
   \<and> py_strip ''With t as (select 1 a) select a from t'' \<noteq> []
   \<and> \<not> FORBIDDEN_search False (py_strip ''With t as (select 1 a) select a from t'')
   \<and> head_verb ''With t as (select 1 a) select a from t'' \<in> ALLOWED_VERBS
   \<and> validate_query length ''With t as (select 1 a) select a from t'' \<noteq> Inl verb_error"
proof -
  have a1: "py_strip ''merge dbo.AppMeta'' \<noteq> []" by code_simp
  have a2: "\<not> FORBIDDEN_search False (py_strip ''merge dbo.AppMeta'')" by code_simp
  have a3: "head_verb ''merge dbo.AppMeta'' \<notin> ALLOWED_VERBS" by code_simp
  have b1: "py_strip ''With t as (select 1 a) select a from t'' \<noteq> []" by code_simp
  have b2: "\<not> FORBIDDEN_search False (py_strip ''With t as (select 1 a) select a from t'')"
    by code_simp
  have b3: "head_verb ''With t as (select 1 a) select a from t'' \<in> ALLOWED_VERBS"
    by code_simp
  from verb_check[OF a1 a2, of length, THEN conjunct2] a3
  have a: "validate_query length ''merge dbo.AppMeta'' = Inl verb_error" by simp
  from verb_check[OF b1 b2, of length, THEN conjunct2] b3
  have b: "validate_query length ''With t as (select 1 a) select a from t'' \<noteq> Inl verb_error"
    by simp
  from a1 a2 a3 a b1 b2 b3 b show ?thesis by (intro conjI)
qed

section \<open>The empty query\<close>

text \<open>
  Claim C5, as the code has it. The handler calls the auth guard first and the validator
  second. For a request that the auth guard lets through and whose query text is empty or
  only whitespace, the handler ends with the 400 \<open>Empty query\<close> and has made no call to
  the driver; in the validator the emptiness check is the first one, so the answer does not
  depend on keywords, verb or objects.
\<close>

theorem empty_query_after_auth:
  assumes "require_token environ x_token = Inr ()" and "py_strip (query req) = []"
  shows "sql environ order d req x_token = (Inl (HTTPException 400 ''Empty query''), [])
       \<and> validate_query order (query req) = Inl (HTTPException 400 ''Empty query'')"
  using assms by (simp add: sql_def validate_query_def)

theorem empty_query_after_auth_witness:
  "require_token Map.empty None = Inr ()
   \<and> py_strip (query \<lparr>query = [CHR '' '', CHR 0x09, CHR 0x0A], params = [PInt 1]\<rparr>) = []
   \<and> sql Map.empty length rows_driver \<lparr>query = [CHR '' '', CHR 0x09, CHR 0x0A], params = [PInt 1]\<rparr> None
       = (Inl (HTTPException 400 ''Empty query''), [])"
proof -
  have a: "require_token Map.empty None = Inr ()" by (simp add: require_token_def env_def)
  have b: "py_strip (query \<lparr>query = [CHR '' '', CHR 0x09, CHR 0x0A], params = [PInt 1]\<rparr>) = []"
    by code_simp
  from empty_query_after_auth[OF a b, of length rows_driver] a b show ?thesis by simp
qed

text \<open>
  Claim C5 as stated fails: with a secret configured and no token, an empty query is answered
  by the 401 of the auth guard, not by the 400.
\<close>

theorem empty_query_unauthorized_counterexample:
  "sql secret_environ length rows_driver \<lparr>query = ''  '', params = []\<rparr> None
     = (Inl (HTTPException 401 ''Unauthorized''), [])
   \<and> fst (sql secret_environ length rows_driver \<lparr>query = ''  '', params = []\<rparr> None)
     \<noteq> Inl (HTTPException 400 ''Empty query'')"
  by (simp add: sql_def require_token_def env_def secret_environ_def py_strip_def py_isspace_Char)

section \<open>The parameter adapter\<close>

text \<open>The loop over the indices rewrites each element once: it is a map.\<close>

lemma adapt_loop_eq: "adapt_loop i out = take i out @ map adapt_one (drop i out)"
proof (induction i out rule: adapt_loop.induct)
  case (1 i out)
  show ?case
  proof (cases "i < length out")
    case True
    have "adapt_loop i out = adapt_loop (Suc i) (out[i := adapt_one (out ! i)])"
      using True by (subst adapt_loop.simps) simp
    also have "\<dots> = take (Suc i) (out[i := adapt_one (out ! i)]) @
        map adapt_one (drop (Suc i) (out[i := adapt_one (out ! i)]))"
      using 1 True by simp
    also have "\<dots> = take i out @ [adapt_one (out ! i)] @ map adapt_one (drop (Suc i) out)"
      using True by (simp add: take_Suc_conv_app_nth)
    also have "\<dots> = take i out @ map adapt_one (drop i out)"
      using True by (simp add: Cons_nth_drop_Suc[symmetric])
    finally show ?thesis .
  next
    case False
    then show ?thesis by (subst adapt_loop.simps) simp
  qed
qed

text \<open>
  Claim C6. For an insert into dbo.noterules (as the lower-cased text shows it) every string
  parameter that base64-decodes is replaced by its bytes, a string whose decoding raises is
  kept as it is, any other parameter is kept, and no exception leaves the adapter; for any
  other text the parameters are returned unchanged.
\<close>

theorem adapt_params_map:
  "adapt_params qtext ps =
     (if noterules_insert qtext
      then map (\<lambda>p. case p of
                      PStr s \<Rightarrow> (case b64decode s of Inr b \<Rightarrow> PBytes b | Inl e \<Rightarrow> PStr s)
                    | _ \<Rightarrow> p) ps
      else ps)"
proof -
  have "adapt_one = (\<lambda>p. case p of
                      PStr s \<Rightarrow> (case b64decode s of Inr b \<Rightarrow> PBytes b | Inl e \<Rightarrow> PStr s)
                    | _ \<Rightarrow> p)"
    by (rule ext) (simp add: adapt_one_def)
  then show ?thesis
    by (auto simp: adapt_params_def noterules_insert_def Let_def adapt_loop_eq)
qed

theorem adapt_params_map_witness:
  "noterules_insert ''INSERT INTO dbo.NoteRules (Body) VALUES (?)''
   \<and> adapt_params ''INSERT INTO dbo.NoteRules (Body) VALUES (?)''
        [PStr ''QUJD'', PStr ''Q'', PInt 7, PNone, PStr ''QQ'']
      = [PBytes [65, 66, 67], PStr ''Q'', PInt 7, PNone, PStr ''QQ'']
   \<and> \<not> noterules_insert ''update dbo.NoteRules set Body = ?''
   \<and> adapt_params ''update dbo.NoteRules set Body = ?'' [PStr ''QUJD''] = [PStr ''QUJD'']"
proof -
  have a: "noterules_insert ''INSERT INTO dbo.NoteRules (Body) VALUES (?)''" by code_simp
  have b: "\<not> noterules_insert ''update dbo.NoteRules set Body = ?''" by code_simp
  have d1: "b64decode ''QUJD'' = Inr [65, 66, 67]" by code_simp
  have d2: "b64decode ''Q'' = Inl (Inr (InvalidLength 1))" by code_simp
  have d3: "b64decode ''QQ'' = Inl (Inr IncorrectPadding)" by code_simp
  show ?thesis
    using a b
      adapt_params_map[of "''INSERT INTO dbo.NoteRules (Body) VALUES (?)''"
        "[PStr ''QUJD'', PStr ''Q'', PInt 7, PNone, PStr ''QQ'']"]
      adapt_params_map[of "''update dbo.NoteRules set Body = ?''" "[PStr ''QUJD'']"]
    by (simp add: d1 d2 d3)
qed

section \<open>The two forms of a result\<close>

lemma sql_after_execute:
  assumes "require_token environ x_token = Inr ()"
    and "validate_query order (query req) = Inr ()"
    and "connect d (sql_conn_str environ) = None"
    and "conn_cursor d = None"
    and "cur_execute d (query req) (adapt_params (query req) (params req)) = None"
  shows "sql environ order d req x_token =
           (let t = (case cur_description d of
                       None \<Rightarrow> sql_mutation d
                         [Connect (sql_conn_str environ), Cursor,
                          Execute (query req) (adapt_params (query req) (params req))]
                     | Some descr \<Rightarrow>
                         if descr \<noteq> [] then sql_rows d descr
                           [Connect (sql_conn_str environ), Cursor,
                            Execute (query req) (adapt_params (query req) (params req))]
                         else sql_mutation d
                           [Connect (sql_conn_str environ), Cursor,
                            Execute (query req) (adapt_params (query req) (params req))])
            in (except_clauses (fst t), snd t @ [Close]))"
  using assms by (simp add: sql_def sql_try_def Let_def split: prod.split)


lemma sql_row_result:
  assumes "require_token environ x_token = Inr ()"
    and "validate_query order (query req) = Inr ()"
    and "connect d (sql_conn_str environ) = None"
    and "conn_cursor d = None"
    and "cur_execute d (query req) (adapt_params (query req) (params req)) = None"
    and "cur_description d = Some descr" "descr \<noteq> []" "cur_fetchall d = Inr rs"
  shows "sql environ order d req x_token =
              (Inr \<lparr>columns = map fst descr, rows = map (map encode_value) rs,
                    rowcount = Some (length rs), affected_rows = None\<rparr>,
               [Connect (sql_conn_str environ), Cursor,
                Execute (query req) (adapt_params (query req) (params req)), Fetchall, Close])"
  unfolding sql_after_execute[OF assms(1-5)]
  using assms(6-8) by (simp add: sql_rows_def Let_def)

lemma sql_mutation_result:
  assumes "require_token environ x_token = Inr ()"
    and "validate_query order (query req) = Inr ()"
    and "connect d (sql_conn_str environ) = None"
    and "conn_cursor d = None"
    and "cur_execute d (query req) (adapt_params (query req) (params req)) = None"
    and "cur_description d = None \<or> cur_description d = Some []" "conn_commit d = None"
  shows "sql environ order d req x_token =
              (Inr \<lparr>columns = [], rows = [], rowcount = None,
                    affected_rows = Some (case cur_rowcount d of Some n \<Rightarrow> n | None \<Rightarrow> - 1)\<rparr>,
               [Connect (sql_conn_str environ), Cursor,
                Execute (query req) (adapt_params (query req) (params req)), Commit, Close])"
  unfolding sql_after_execute[OF assms(1-5)]
  using assms(6-7) by (auto simp: sql_mutation_def Let_def)

lemma sql_rows_form: "fst (sql_rows d descr calls) = Inr r \<Longrightarrow>
      rowcount r \<noteq> None \<and> affected_rows r = None"
  by (cases "cur_fetchall d") (auto simp: sql_rows_def Let_def)

lemma sql_mutation_form: "fst (sql_mutation d calls) = Inr r \<Longrightarrow>
      rowcount r = None \<and> affected_rows r \<noteq> None"
  by (cases "conn_commit d") (auto simp: sql_mutation_def Let_def)

lemma except_clauses_Inr: "except_clauses x = Inr r \<Longrightarrow> x = Inr r"
  by (erule except_clauses.elims) auto

lemma sql_try_form: "fst (sql_try d cs q ps) = Inr r \<Longrightarrow>
   (rowcount r = None) \<noteq> (affected_rows r = None)"
  by (cases "connect d cs"; cases "conn_cursor d"; cases "cur_execute d q ps";
      cases "cur_description d")
     (auto simp: sql_try_def dest: sql_rows_form sql_mutation_form split: if_splits)

lemma sql_form: "fst (sql environ order d req x_token) = Inr r \<Longrightarrow>
   (rowcount r = None) \<noteq> (affected_rows r = None)"
proof -
  assume a: "fst (sql environ order d req x_token) = Inr r"
  let ?t = "sql_try d (sql_conn_str environ) (query req) (adapt_params (query req) (params req))"
  from a have "except_clauses (fst ?t) = Inr r"
    by (cases "require_token environ x_token"; cases "validate_query order (query req)")
       (auto simp: sql_def Let_def split: prod.splits)
  then have "fst ?t = Inr r" by (rule except_clauses_Inr)
  then show ?thesis by (rule sql_try_form)
qed


text \<open>
  Claim C8. After the auth guard, the validator, \<open>connect\<close>, \<open>cursor\<close> and \<open>execute\<close>
  have succeeded: with a non-empty description and rows fetched, the response has the column
  names, the encoded rows and their number, no \<open>affected_rows\<close>, and no commit was made;
  with no description (or an empty one) and a commit that succeeds, the response has empty
  columns and rows and the row count of the driver, or -1 when it reports none. A response
  has one of \<open>rowcount\<close> and \<open>affected_rows\<close>, never both.
\<close>

theorem result_forms:
  assumes "require_token environ x_token = Inr ()"
    and "validate_query order (query req) = Inr ()"
    and "connect d (sql_conn_str environ) = None"
    and "conn_cursor d = None"
    and "cur_execute d (query req) (adapt_params (query req) (params req)) = None"
  shows "(\<forall>descr rs. cur_description d = Some descr \<and> descr \<noteq> [] \<and> cur_fetchall d = Inr rs \<longrightarrow>
            sql environ order d req x_token =
              (Inr \<lparr>columns = map fst descr, rows = map (map encode_value) rs,
                    rowcount = Some (length rs), affected_rows = None\<rparr>,
               [Connect (sql_conn_str environ), Cursor,
                Execute (query req) (adapt_params (query req) (params req)), Fetchall, Close]))
       \<and> ((cur_description d = None \<or> cur_description d = Some []) \<and> conn_commit d = None \<longrightarrow>
            sql environ order d req x_token =
              (Inr \<lparr>columns = [], rows = [], rowcount = None,
                    affected_rows = Some (case cur_rowcount d of Some n \<Rightarrow> n | None \<Rightarrow> - 1)\<rparr>,
               [Connect (sql_conn_str environ), Cursor,
                Execute (query req) (adapt_params (query req) (params req)), Commit, Close]))
       \<and> (\<forall>r. fst (sql environ order d req x_token) = Inr r \<longrightarrow>
            (rowcount r = None) \<noteq> (affected_rows r = None))"
proof (intro conjI allI impI)
  fix descr rs
  assume "cur_description d = Some descr \<and> descr \<noteq> [] \<and> cur_fetchall d = Inr rs"
  then have "cur_description d = Some descr" "descr \<noteq> []" "cur_fetchall d = Inr rs"
    by simp_all
  then show "sql environ order d req x_token =
              (Inr \<lparr>columns = map fst descr, rows = map (map encode_value) rs,
                    rowcount = Some (length rs), affected_rows = None\<rparr>,
               [Connect (sql_conn_str environ), Cursor,
                Execute (query req) (adapt_params (query req) (params req)), Fetchall, Close])"
    by (rule sql_row_result[OF assms])
next
  assume "(cur_description d = None \<or> cur_description d = Some []) \<and> conn_commit d = None"
  then have "cur_description d = None \<or> cur_description d = Some []" "conn_commit d = None"
    by simp_all
  then show "sql environ order d req x_token =
              (Inr \<lparr>columns = [], rows = [], rowcount = None,
                    affected_rows = Some (case cur_rowcount d of Some n \<Rightarrow> n | None \<Rightarrow> - 1)\<rparr>,
               [Connect (sql_conn_str environ), Cursor,
                Execute (query req) (adapt_params (query req) (params req)), Commit, Close])"
    by (rule sql_mutation_result[OF assms])
next
  fix r
  assume "fst (sql environ order d req x_token) = Inr r"
  then show "(rowcount r = None) \<noteq> (affected_rows r = None)" by (rule sql_form)
qed

theorem result_forms_witness:
  "require_token Map.empty None = Inr ()
   \<and> validate_query length (query read_request) = Inr ()
   \<and> validate_query length (query write_request) = Inr ()
   \<and> sql Map.empty length rows_driver read_request None =
       (Inr \<lparr>columns = [''Id'', ''Body''], rows = [[PInt 1, PStr ''QQ==''], [PInt 2, PNone]],
             rowcount = Some 2, affected_rows = None\<rparr>,
        [Connect (sql_conn_str Map.empty), Cursor,
         Execute (query read_request) (adapt_params (query read_request) (params read_request)),
         Fetchall, Close])
   \<and> sql Map.empty length mutation_driver write_request None =
       (Inr \<lparr>columns = [], rows = [], rowcount = None, affected_rows = Some 3\<rparr>,
        [Connect (sql_conn_str Map.empty), Cursor,
         Execute (query write_request) (adapt_params (query write_request) (params write_request)),
         Commit, Close])"
proof -
  have h1: "require_token Map.empty None = Inr ()" by (simp add: require_token_def env_def)
  have r2: "validate_query length (query read_request) = Inr ()" by code_simp
  have w2: "validate_query length (query write_request) = Inr ()" by code_simp
  have r3: "connect rows_driver (sql_conn_str Map.empty) = None"
    and r4: "conn_cursor rows_driver = None"
    and r5: "cur_execute rows_driver (query read_request)
               (adapt_params (query read_request) (params read_request)) = None"
    by (simp_all add: rows_driver_def)
  have w3: "connect mutation_driver (sql_conn_str Map.empty) = None"
    and w4: "conn_cursor mutation_driver = None"
    and w5: "cur_execute mutation_driver (query write_request)
               (adapt_params (query write_request) (params write_request)) = None"
    by (simp_all add: mutation_driver_def)
  have e: "encode_value (PBytes [65]) = PStr ''QQ==''" by code_simp
  have e': "encode_value (PInt 1) = PInt 1" "encode_value (PInt 2) = PInt 2"
    "encode_value PNone = PNone"
    by (simp_all add: encode_value_def)
  have r: "sql Map.empty length rows_driver read_request None =
       (Inr \<lparr>columns = [''Id'', ''Body''], rows = [[PInt 1, PStr ''QQ==''], [PInt 2, PNone]],
             rowcount = Some 2, affected_rows = None\<rparr>,
        [Connect (sql_conn_str Map.empty), Cursor,
         Execute (query read_request) (adapt_params (query read_request) (params read_request)),
         Fetchall, Close])"
    using result_forms[OF h1 r2 r3 r4 r5, THEN conjunct1, rule_format,
        of "[(''Id'', []), (''Body'', [])]" "[[PInt 1, PBytes [65]], [PInt 2, PNone]]"]
    by (simp add: rows_driver_def e e')
  have w: "sql Map.empty length mutation_driver write_request None =
       (Inr \<lparr>columns = [], rows = [], rowcount = None, affected_rows = Some 3\<rparr>,
        [Connect (sql_conn_str Map.empty), Cursor,
         Execute (query write_request) (adapt_params (query write_request) (params write_request)),
         Commit, Close])"
    using result_forms[OF h1 w2 w3 w4 w5, THEN conjunct2, THEN conjunct1]
    by (simp add: mutation_driver_def)
  from h1 r2 w2 r w show ?thesis by (intro conjI)
qed

section \<open>The connection is closed\<close>

text \<open>
  Claim C9. Whatever the environment, the request and the driver do, the handler leaks no
  connection: when \<open>connect\<close> has returned a connection, \<open>close\<close> is the last call made
  to the driver, before the response or the exception leaves the handler; \<open>close\<close> is
  called at most once, at the end, and exactly when a connection was acquired.
\<close>

theorem no_leak:
  "\<not> leaks d (snd (sql environ order d req x_token))
   \<and> Close \<notin> set (butlast (snd (sql environ order d req x_token)))
   \<and> (Close \<in> set (snd (sql environ order d req x_token)))
       = acquired d (snd (sql environ order d req x_token))"
  by (auto simp: leaks_def acquired_def sql_def sql_try_def sql_rows_def sql_mutation_def Let_def
      split: sum.splits option.splits if_splits)

theorem no_leak_witness:
  "snd (sql Map.empty length failing_driver write_request None) =
     [Connect (sql_conn_str Map.empty), Cursor,
      Execute (query write_request) (adapt_params (query write_request) (params write_request)),
      Close]
   \<and> fst (sql Map.empty length failing_driver write_request None)
       = Inl (HTTPException 500 ''Invalid object name'')
   \<and> \<not> leaks failing_driver (snd (sql Map.empty length failing_driver write_request None))"
proof -
  have h1: "require_token Map.empty None = Inr ()" by (simp add: require_token_def env_def)
  have w2: "validate_query length (query write_request) = Inr ()" by code_simp
  have s: "sql Map.empty length failing_driver write_request None =
     (Inl (HTTPException 500 ''Invalid object name''),
      [Connect (sql_conn_str Map.empty), Cursor,
       Execute (query write_request) (adapt_params (query write_request) (params write_request)),
       Close])"
    by (simp add: sql_def h1 w2 sql_try_def failing_driver_def Let_def)
  from no_leak[of failing_driver Map.empty length write_request None] s
  show ?thesis by simp
qed

section \<open>The forbidden keywords\<close>

lemma is_word_lower: "is_word (py_lower_char c) = is_word c"
proof (cases c)
  case (Char b0 b1 b2 b3 b4 b5 b6 b7)
  show ?thesis unfolding Char
    by (cases b0; cases b1; cases b2; cases b3; cases b4; cases b5; cases b6; cases b7;
        simp add: py_lower_char_Char is_word_Char)
qed

lemma word_not_space: "is_word c \<Longrightarrow> \<not> py_isspace c"
proof (cases c)
  case (Char b0 b1 b2 b3 b4 b5 b6 b7)
  assume "is_word c"
  then show ?thesis unfolding Char
    by (cases b0; cases b1; cases b2; cases b3; cases b4; cases b5; cases b6; cases b7;
        simp add: py_isspace_Char is_word_Char)
qed

lemma forbidden_word_chars:
  "kw \<in> set FORBIDDEN_WORDS \<Longrightarrow> kw \<noteq> [] \<and> (\<forall>c \<in> set kw. is_word c)"
  by (auto simp: FORBIDDEN_WORDS_def is_word_Char)

lemma lowered_word_chars:
  assumes "map py_lower_char mid = kw" and "\<forall>c \<in> set kw. is_word c"
  shows "\<forall>c \<in> set mid. is_word c"
proof
  fix c assume "c \<in> set mid"
  then have "py_lower_char c \<in> set kw" using assms(1) by auto
  with assms(2) have "is_word (py_lower_char c)" by blast
  then show "is_word c" by (simp add: is_word_lower)
qed

lemma dropWhile_append_keep:
  "ys \<noteq> [] \<Longrightarrow> \<not> P (hd ys) \<Longrightarrow> dropWhile P (xs @ ys) = dropWhile P xs @ ys"
  by (induction xs) (auto simp: neq_Nil_conv)

lemma dropWhile_last: "dropWhile P xs \<noteq> [] \<Longrightarrow> last (dropWhile P xs) = last xs"
  by (metis last_appendR takeWhile_dropWhile_id)

lemma strip_around:
  assumes mid: "mid \<noteq> []" and ns: "\<forall>c \<in> set mid. \<not> py_isspace c"
  shows "\<exists>pre' post'. py_strip (pre @ mid @ post) = pre' @ mid @ post'
           \<and> (pre' = [] \<or> (pre \<noteq> [] \<and> last pre' = last pre))
           \<and> (post' = [] \<or> (post \<noteq> [] \<and> hd post' = hd post))"
proof -
  let ?P = py_isspace
  let ?pre = "dropWhile ?P pre"
  let ?post = "rev (dropWhile ?P (rev post))"
  from mid ns have h: "\<not> ?P (hd mid)" and l: "\<not> ?P (last mid)" by auto
  have 1: "dropWhile ?P (pre @ mid @ post) = ?pre @ mid @ post"
    using mid h by (simp add: dropWhile_append_keep)
  have "rev (?pre @ mid @ post) = rev post @ (rev mid @ rev ?pre)" by simp
  moreover have "dropWhile ?P (rev post @ (rev mid @ rev ?pre))
      = dropWhile ?P (rev post) @ (rev mid @ rev ?pre)"
    using mid l by (intro dropWhile_append_keep) (auto simp: hd_rev)
  ultimately have 2: "py_strip (pre @ mid @ post) = ?pre @ mid @ ?post"
    by (simp add: py_strip_def 1)
  have 3: "?pre = [] \<or> (pre \<noteq> [] \<and> last ?pre = last pre)"
    by (cases "?pre = []") (auto simp: dropWhile_last)
  have "rev post = takeWhile ?P (rev post) @ dropWhile ?P (rev post)" by simp
  then have "post = ?post @ rev (takeWhile ?P (rev post))"
    by (metis rev_append rev_rev_ident)
  then have 4: "?post = [] \<or> (post \<noteq> [] \<and> hd ?post = hd post)"
    by (metis hd_append2 append_is_Nil_conv)
  from 2 3 4 show ?thesis by blast
qed

lemma forbidden_at_here:
  assumes kw: "map py_lower_char mid \<in> set FORBIDDEN_WORDS"
    and post: "post = [] \<or> \<not> is_word (hd post)"
  shows "forbidden_at False (mid @ post)"
proof -
  let ?kw = "map py_lower_char mid"
  from forbidden_word_chars[OF kw] have ne: "mid \<noteq> []" and w: "\<forall>c \<in> set ?kw. is_word c"
    by auto
  from lowered_word_chars[OF refl w] have mw: "\<forall>c \<in> set mid. is_word c" .
  from ne mw have "is_word (hd mid)" "is_word (last mid)" by auto
  then have b1: "word_boundary False (mid @ post)"
    using ne by (cases mid) (auto simp: word_boundary_def)
  have p: "ci_prefix ?kw (mid @ post)" by (simp add: ci_prefix_def)
  have b2: "word_boundary (is_word (last (take (length ?kw) (mid @ post))))
      (drop (length ?kw) (mid @ post))"
    using post \<open>is_word (last mid)\<close> by (cases post) (auto simp: word_boundary_def)
  from b1 kw p b2 show ?thesis unfolding forbidden_at_def by blast
qed

lemma FORBIDDEN_search_finds:
  assumes kw: "map py_lower_char mid \<in> set FORBIDDEN_WORDS"
    and post: "post = [] \<or> \<not> is_word (hd post)"
  shows "(pre = [] \<longrightarrow> \<not> pw) \<Longrightarrow> (pre \<noteq> [] \<longrightarrow> \<not> is_word (last pre)) \<Longrightarrow>
         FORBIDDEN_search pw (pre @ mid @ post)"
proof (induction pre arbitrary: pw)
  case Nil
  from forbidden_word_chars[OF kw] obtain c cs where m: "mid = c # cs" by (cases mid) auto
  from Nil have "\<not> pw" by simp
  with forbidden_at_here[OF kw post] show ?case by (simp add: m)
next
  case (Cons c cs)
  have "FORBIDDEN_search (is_word c) (cs @ mid @ post)"
    using Cons.prems by (intro Cons.IH) (auto split: if_splits)
  then show ?case by simp
qed

text \<open>
  Claim C1. A query text in which a forbidden keyword stands as a whole word (written in any
  letter case, with no word character next to it on either side), anywhere in the text, is
  rejected with the 403 \<open>Forbidden SQL keyword\<close>, whatever its first token and whatever
  objects it names.
\<close>

theorem forbidden_keyword_rejected:
  assumes "qtext = pre @ mid @ post"
    and "py_lower mid \<in> set FORBIDDEN_WORDS"
    and "pre = [] \<or> \<not> is_word (last pre)"
    and "post = [] \<or> \<not> is_word (hd post)"
  shows "validate_query order qtext = Inl (HTTPException 403 ''Forbidden SQL keyword'')"
proof -
  from assms(2) have kw: "map py_lower_char mid \<in> set FORBIDDEN_WORDS"
    by (simp add: py_lower_def)
  from forbidden_word_chars[OF kw] have ne: "mid \<noteq> []" and w: "\<forall>c \<in> set (map py_lower_char mid). is_word c"
    by auto
  from lowered_word_chars[OF refl w] have "\<forall>c \<in> set mid. \<not> py_isspace c"
    by (auto dest: word_not_space)
  from strip_around[OF ne this, of pre post] obtain pre' post' where
    s: "py_strip qtext = pre' @ mid @ post'"
    and p1: "pre' = [] \<or> (pre \<noteq> [] \<and> last pre' = last pre)"
    and p2: "post' = [] \<or> (post \<noteq> [] \<and> hd post' = hd post)"
    unfolding assms(1) by blast
  from p2 assms(4) have post': "post' = [] \<or> \<not> is_word (hd post')" by auto
  from p1 assms(3) have pre': "pre' \<noteq> [] \<longrightarrow> \<not> is_word (last pre')" by auto
  have "FORBIDDEN_search False (py_strip qtext)"
    unfolding s using pre' by (intro FORBIDDEN_search_finds[OF kw post']) auto
  moreover have "py_strip qtext \<noteq> []" using s ne by simp
  ultimately show ?thesis by (simp add: validate_query_def)
qed

theorem forbidden_keyword_rejected_witness:
  "''select * from dbo.AppMeta; DrOp table dbo.AppMeta'' = ''select * from dbo.AppMeta; '' @ ''DrOp'' @ '' table dbo.AppMeta''
   \<and> py_lower ''DrOp'' \<in> set FORBIDDEN_WORDS
   \<and> \<not> is_word (last ''select * from dbo.AppMeta; '')
   \<and> \<not> is_word (hd '' table dbo.AppMeta'')
   \<and> validate_query length ''select * from dbo.AppMeta; DrOp table dbo.AppMeta''
       = Inl (HTTPException 403 ''Forbidden SQL keyword'')"
proof -
  have a: "''select * from dbo.AppMeta; DrOp table dbo.AppMeta'' = ''select * from dbo.AppMeta; '' @ ''DrOp'' @ '' table dbo.AppMeta''"
    by simp
  have b: "py_lower ''DrOp'' \<in> set FORBIDDEN_WORDS" by code_simp
  have c: "\<not> is_word (last ''select * from dbo.AppMeta; '')" by code_simp
  have d: "\<not> is_word (hd '' table dbo.AppMeta'')" by code_simp
  from forbidden_keyword_rejected[OF a b disjI2[OF c] disjI2[OF d], of length] a b c d
  show ?thesis by blast
qed

section \<open>Base64: decoding what was encoded\<close>

lemma b64_alphabet_distinct: "distinct b64_alphabet"
  by code_simp
lemma b64_alphabet_ascii: "\<forall>c \<in> set b64_alphabet. c \<noteq> CHR ''='' \<and> (of_char c :: nat) < 128"
  by code_simp
lemma b64_index_char_all: "\<forall>n \<in> set [0..<64]. b64_index (b64_char n) = Some n"
  by code_simp
lemma a2b_data:
  assumes i: "b64_index c = Some n" and np: "c \<noteq> CHR ''=''"
  shows "a2b_base64 0 lc p (c # cs) out = a2b_base64 (Suc 0) n 0 cs out"
    and "a2b_base64 (Suc 0) lc p (c # cs) out =
           a2b_base64 2 (n mod 16) 0 cs (out @ [word_of_nat (lc * 4 + n div 16)])"
    and "a2b_base64 2 lc p (c # cs) out =
           a2b_base64 3 (n mod 4) 0 cs (out @ [word_of_nat (lc * 16 + n div 4)])"
    and "a2b_base64 3 lc p (c # cs) out =
           a2b_base64 0 0 0 cs (out @ [word_of_nat (lc * 64 + n)])"
  using assms by simp_all
lemma byte_bounds: "unat (a :: byte) < 256"
  using unsigned_less[of a] by simp

lemma s1: "(a::nat) < 256 \<Longrightarrow> a div 4 < 64" by simp
lemma s2: "(b::nat) < 256 \<Longrightarrow> a mod 4 * 16 + b div 16 < 64"
proof -
  assume "b < 256"
  then have "b div 16 < 16" by simp
  moreover have "a mod 4 < 4" by simp
  ultimately show ?thesis by linarith
qed
lemma s3: "(c::nat) < 256 \<Longrightarrow> b mod 16 * 4 + c div 64 < 64"
proof -
  assume "c < 256"
  then have "c div 64 < 4" by simp
  moreover have "b mod 16 < 16" by simp
  ultimately show ?thesis by linarith
qed
lemma s4: "(c::nat) mod 64 < 64" by simp
lemma s5: "(a::nat) mod 4 * 16 < 64"
proof -
  have "a mod 4 < 4" by simp
  then show ?thesis by linarith
qed
lemma s6: "(b::nat) mod 16 * 4 < 64"
proof -
  have "b mod 16 < 16" by simp
  then show ?thesis by linarith
qed
lemma hi_lo: "(k::nat) < m \<Longrightarrow> (x * m + k) div m = x \<and> (x * m + k) mod m = k"
  by simp
lemma d1: "(b::nat) < 256 \<Longrightarrow> a div 4 * 4 + (a mod 4 * 16 + b div 16) div 16 = a"
proof -
  assume "b < 256"
  then have "b div 16 < 16" by simp
  then have "(a mod 4 * 16 + b div 16) div 16 = a mod 4" by simp
  then show ?thesis by simp
qed
lemma d2: "(b::nat) < 256 \<Longrightarrow> (c::nat) < 256 \<Longrightarrow>
   (a mod 4 * 16 + b div 16) mod 16 * 16 + (b mod 16 * 4 + c div 64) div 4 = b"
proof -
  assume "b < 256" "c < 256"
  then have 1: "b div 16 < 16" and 2: "c div 64 < 4" by simp_all
  from 1 have "(a mod 4 * 16 + b div 16) mod 16 = b div 16" by simp
  moreover from 2 have "(b mod 16 * 4 + c div 64) div 4 = b mod 16" by simp
  ultimately show ?thesis by simp
qed
lemma d3: "(c::nat) < 256 \<Longrightarrow> (b mod 16 * 4 + c div 64) mod 4 * 64 + c mod 64 = c"
proof -
  assume "c < 256"
  then have 2: "c div 64 < 4" by simp
  then have "(b mod 16 * 4 + c div 64) mod 4 = c div 64" by simp
  then show ?thesis by simp
qed
lemma d4: "(a::nat) div 4 * 4 + (a mod 4 * 16) div 16 = a" by simp
lemma d5: "(b::nat) < 256 \<Longrightarrow> (a mod 4 * 16 + b div 16) mod 16 * 16 + (b mod 16 * 4) div 4 = b"
proof -
  assume "b < 256"
  then have 1: "b div 16 < 16" by simp
  then have "(a mod 4 * 16 + b div 16) mod 16 = b div 16" by simp
  then show ?thesis by simp
qed

lemma b64_char_facts:
  assumes "n < 64"
  shows "b64_index (b64_char n) = Some n" and "b64_char n \<noteq> CHR ''=''"
    and "(of_char (b64_char n) :: nat) < 128"
proof -
  from assms have "n \<in> set [0..<64]" by simp
  with b64_index_char_all show "b64_index (b64_char n) = Some n" by blast
  have "length b64_alphabet = 64" by (simp add: b64_alphabet_def)
  with assms have "b64_char n \<in> set b64_alphabet" by (simp add: b64_char_def)
  with b64_alphabet_ascii show "b64_char n \<noteq> CHR ''=''" "(of_char (b64_char n) :: nat) < 128"
    by blast+
qed

lemmas a2b_char = a2b_data[OF b64_char_facts(1) b64_char_facts(2)]

lemma a2b_pad:
  "a2b_base64 2 lc 0 (CHR ''='' # cs) out = a2b_base64 2 lc (Suc 0) cs out"
  "a2b_base64 2 lc (Suc 0) (CHR ''='' # cs) out = Inr out"
  "a2b_base64 3 lc 0 (CHR ''='' # cs) out = Inr out"
  by simp_all

lemma word_of_unat: "word_of_nat (unat (a :: byte)) = a"
  by simp

lemma a2b_group1:
  "a2b_base64 0 0 0 (b64encode [a]) out = Inr (out @ [a])"
proof -
  define n1 n2 where "n1 = unat a div 4" and "n2 = unat a mod 4 * 16"
  have l: "n1 < 64" "n2 < 64" by (simp_all add: n1_def n2_def s1 s5 byte_bounds)
  have v: "word_of_nat (n1 * 4 + n2 div 16) = a"
    unfolding n1_def n2_def d4 by (rule word_of_unat)
  have "a2b_base64 0 0 0 (b64encode [a]) out
        = a2b_base64 0 0 0 [b64_char n1, b64_char n2, CHR ''='', CHR ''=''] out"
    by (simp add: n1_def n2_def)
  also have "\<dots> = a2b_base64 (Suc 0) n1 0 [b64_char n2, CHR ''='', CHR ''=''] out"
    by (rule a2b_char(1)[OF l(1) l(1)])
  also have "\<dots> = a2b_base64 2 (n2 mod 16) 0 [CHR ''='', CHR ''='']
                      (out @ [word_of_nat (n1 * 4 + n2 div 16)])"
    by (rule a2b_char(2)[OF l(2) l(2)])
  also have "\<dots> = a2b_base64 2 (n2 mod 16) (Suc 0) [CHR ''='']
                      (out @ [word_of_nat (n1 * 4 + n2 div 16)])"
    by (rule a2b_pad(1))
  also have "\<dots> = Inr (out @ [word_of_nat (n1 * 4 + n2 div 16)])"
    by (rule a2b_pad(2))
  finally show ?thesis unfolding v .
qed

lemma a2b_group2:
  "a2b_base64 0 0 0 (b64encode [a, b]) out = Inr (out @ [a, b])"
proof -
  define n1 n2 n3 where "n1 = unat a div 4" and "n2 = unat a mod 4 * 16 + unat b div 16"
    and "n3 = unat b mod 16 * 4"
  have l: "n1 < 64" "n2 < 64" "n3 < 64"
    by (simp_all add: n1_def n2_def n3_def s1 s2 s6 byte_bounds)
  have v1: "word_of_nat (n1 * 4 + n2 div 16) = a"
    unfolding n1_def n2_def d1[OF byte_bounds] by (rule word_of_unat)
  have v2: "word_of_nat (n2 mod 16 * 16 + n3 div 4) = b"
    unfolding n2_def n3_def d5[OF byte_bounds] by (rule word_of_unat)
  have "a2b_base64 0 0 0 (b64encode [a, b]) out
        = a2b_base64 0 0 0 [b64_char n1, b64_char n2, b64_char n3, CHR ''=''] out"
    by (simp add: n1_def n2_def n3_def)
  also have "\<dots> = a2b_base64 (Suc 0) n1 0 [b64_char n2, b64_char n3, CHR ''=''] out"
    by (rule a2b_char(1)[OF l(1) l(1)])
  also have "\<dots> = a2b_base64 2 (n2 mod 16) 0 [b64_char n3, CHR ''='']
                      (out @ [word_of_nat (n1 * 4 + n2 div 16)])"
    by (rule a2b_char(2)[OF l(2) l(2)])
  also have "\<dots> = a2b_base64 3 (n3 mod 4) 0 [CHR ''='']
                      ((out @ [word_of_nat (n1 * 4 + n2 div 16)])
                       @ [word_of_nat (n2 mod 16 * 16 + n3 div 4)])"
    by (rule a2b_char(3)[OF l(3) l(3)])
  also have "\<dots> = Inr ((out @ [word_of_nat (n1 * 4 + n2 div 16)])
                       @ [word_of_nat (n2 mod 16 * 16 + n3 div 4)])"
    by (rule a2b_pad(3))
  finally show ?thesis unfolding v1 v2 by simp
qed

lemma a2b_group3:
  "a2b_base64 0 0 0 (b64encode (a # b # c # bs)) out
     = a2b_base64 0 0 0 (b64encode bs) (out @ [a, b, c])"
proof -
  define n1 n2 n3 n4 where "n1 = unat a div 4" and "n2 = unat a mod 4 * 16 + unat b div 16"
    and "n3 = unat b mod 16 * 4 + unat c div 64" and "n4 = unat c mod 64"
  define r where "r = b64encode bs"
  have l: "n1 < 64" "n2 < 64" "n3 < 64" "n4 < 64"
    by (simp_all add: n1_def n2_def n3_def n4_def s1 s2 s3 byte_bounds)
  have v1: "word_of_nat (n1 * 4 + n2 div 16) = a"
    unfolding n1_def n2_def d1[OF byte_bounds] by (rule word_of_unat)
  have v2: "word_of_nat (n2 mod 16 * 16 + n3 div 4) = b"
    unfolding n2_def n3_def d2[OF byte_bounds byte_bounds] by (rule word_of_unat)
  have v3: "word_of_nat (n3 mod 4 * 64 + n4) = c"
    unfolding n3_def n4_def d3[OF byte_bounds] by (rule word_of_unat)
  have "a2b_base64 0 0 0 (b64encode (a # b # c # bs)) out
        = a2b_base64 0 0 0 (b64_char n1 # b64_char n2 # b64_char n3 # b64_char n4 # r) out"
    by (simp add: n1_def n2_def n3_def n4_def r_def)
  also have "\<dots> = a2b_base64 (Suc 0) n1 0 (b64_char n2 # b64_char n3 # b64_char n4 # r) out"
    by (rule a2b_char(1)[OF l(1) l(1)])
  also have "\<dots> = a2b_base64 2 (n2 mod 16) 0 (b64_char n3 # b64_char n4 # r)
                      (out @ [word_of_nat (n1 * 4 + n2 div 16)])"
    by (rule a2b_char(2)[OF l(2) l(2)])
  also have "\<dots> = a2b_base64 3 (n3 mod 4) 0 (b64_char n4 # r)
                      ((out @ [word_of_nat (n1 * 4 + n2 div 16)])
                       @ [word_of_nat (n2 mod 16 * 16 + n3 div 4)])"
    by (rule a2b_char(3)[OF l(3) l(3)])
  also have "\<dots> = a2b_base64 0 0 0 r
                      (((out @ [word_of_nat (n1 * 4 + n2 div 16)])
                       @ [word_of_nat (n2 mod 16 * 16 + n3 div 4)])
                       @ [word_of_nat (n3 mod 4 * 64 + n4)])"
    by (rule a2b_char(4)[OF l(4) l(4)])
  finally show ?thesis unfolding v1 v2 v3 r_def by simp
qed

lemma a2b_b64encode: "a2b_base64 0 0 0 (b64encode bs) out = Inr (out @ bs)"
proof (induction bs arbitrary: out rule: b64encode.induct)
  case 1
  show ?case by simp
next
  case (2 a)
  show ?case by (rule a2b_group1)
next
  case (3 a b)
  show ?case by (rule a2b_group2)
next
  case (4 a b c bs)
  have "a2b_base64 0 0 0 (b64encode (a # b # c # bs)) out
        = a2b_base64 0 0 0 (b64encode bs) (out @ [a, b, c])"
    by (rule a2b_group3)
  also have "\<dots> = Inr ((out @ [a, b, c]) @ bs)" by (rule "4.IH")
  finally show ?case by simp
qed

lemma b64encode_ascii: "c \<in> set (b64encode bs) \<Longrightarrow> (of_char c :: nat) < 128"
  by (induction bs rule: b64encode.induct)
     (auto simp: b64_char_facts(3) s1 s2 s3 s4 s5 s6 byte_bounds)

lemma b64decode_b64encode: "b64decode (b64encode bs) = Inr bs"
proof -
  have "\<not> (\<exists>c \<in> set (b64encode bs). 128 \<le> (of_char c :: nat))"
    using b64encode_ascii[of _ bs] by (auto simp: not_le)
  then show ?thesis by (simp add: b64decode_def a2b_b64encode)
qed

lemma adapt_params_eq:
  "adapt_params qtext ps = (if noterules_insert qtext then map adapt_one ps else ps)"
  by (auto simp: adapt_params_def noterules_insert_def Let_def adapt_loop_eq)

text \<open>
  Claim C7, as the code has it. For every byte payload \<open>b\<close>, when its standard base64
  text \<open>b64encode b\<close> is a string parameter of an insert into dbo.noterules, the adapter
  decodes it to \<open>b\<close>, and the result encoder turns that payload back into the same text.
\<close>

theorem roundtrip_canonical:
  assumes "noterules_insert qtext" and "i < length ps" and "ps ! i = PStr (b64encode b)"
  shows "adapt_params qtext ps ! i = PBytes b
       \<and> encode_value (adapt_params qtext ps ! i) = PStr (b64encode b)"
  using assms by (simp add: adapt_params_eq adapt_one_def b64decode_b64encode encode_value_def)

theorem roundtrip_canonical_witness:
  "noterules_insert ''INSERT INTO dbo.NoteRules (Id, Body) VALUES (?, ?)''
   \<and> (1::nat) < length [PInt 7, PStr (b64encode [65, 66, 67, 255])]
   \<and> [PInt 7, PStr (b64encode [65, 66, 67, 255])] ! 1 = PStr (b64encode [65, 66, 67, 255])
   \<and> b64encode [65, 66, 67, 255] = ''QUJD/w==''
   \<and> adapt_params ''INSERT INTO dbo.NoteRules (Id, Body) VALUES (?, ?)''
        [PInt 7, PStr ''QUJD/w==''] ! 1 = PBytes [65, 66, 67, 255]
   \<and> encode_value (PBytes [65, 66, 67, 255]) = PStr ''QUJD/w=='' "
proof -
  have a: "noterules_insert ''INSERT INTO dbo.NoteRules (Id, Body) VALUES (?, ?)''"
    by code_simp
  have b: "(1::nat) < length [PInt 7, PStr (b64encode [65, 66, 67, 255])]" by simp
  have c: "[PInt 7, PStr (b64encode [65, 66, 67, 255])] ! 1 = PStr (b64encode [65, 66, 67, 255])"
    by simp
  have e: "b64encode [65, 66, 67, 255] = ''QUJD/w==''" by code_simp
  note r = roundtrip_canonical[OF a b c, unfolded e]
  from r have f: "adapt_params ''INSERT INTO dbo.NoteRules (Id, Body) VALUES (?, ?)''
        [PInt 7, PStr ''QUJD/w==''] ! 1 = PBytes [65, 66, 67, 255]"
    by (rule conjunct1)
  from r have g: "encode_value (PBytes [65, 66, 67, 255]) = PStr ''QUJD/w==''"
    unfolding f by (rule conjunct2)
  from a b c e f g show ?thesis by (intro conjI)
qed

text \<open>
  Claim C7 as stated fails: the decoder accepts texts that no encoder produces. \<open>QR==\<close>
  (unused bits not zero) decodes to the byte 65, which encodes to \<open>QQ==\<close>; \<open>QUJD\<close>
  followed by a line feed decodes to three bytes, which encode to \<open>QUJD\<close>.
\<close>

theorem roundtrip_counterexample:
  "adapt_params ''insert into dbo.NoteRules (Body) values (?)'' [PStr ''QR==''] = [PBytes [65]]
   \<and> encode_value (PBytes [65]) = PStr ''QQ==''
   \<and> ''QQ=='' \<noteq> ''QR==''
   \<and> adapt_params ''insert into dbo.NoteRules (Body) values (?)'' [PStr [CHR ''Q'', CHR ''U'', CHR ''J'', CHR ''D'', CHR 0x0A]]
       = [PBytes [65, 66, 67]]
   \<and> encode_value (PBytes [65, 66, 67]) = PStr ''QUJD''
   \<and> ''QUJD'' \<noteq> [CHR ''Q'', CHR ''U'', CHR ''J'', CHR ''D'', CHR 0x0A]"
  by code_simp

section \<open>The object allow-list\<close>

text \<open>The closing \<open>\b\<close> of the object pattern: it holds after the whole run of word
  characters and after no shorter, non-empty part of it, so the greedy match is the only
  one.\<close>

lemma obj_ref_closing_boundary:
  assumes "takeWhile is_word w \<noteq> []"
  shows "word_boundary (is_word (last (takeWhile is_word w))) (dropWhile is_word w)"
    and "0 < k \<Longrightarrow> k < length (takeWhile is_word w) \<Longrightarrow>
         \<not> word_boundary (is_word (w ! (k - 1))) (drop k w)"
proof -
  from assms have "last (takeWhile is_word w) \<in> set (takeWhile is_word w)" by simp
  then have l: "is_word (last (takeWhile is_word w))" by (rule set_takeWhileD[THEN conjunct2])
  show "word_boundary (is_word (last (takeWhile is_word w))) (dropWhile is_word w)"
  proof (cases "dropWhile is_word w")
    case Nil
    from l show ?thesis unfolding word_boundary_def Nil by simp
  next
    case (Cons c cs)
    have "\<not> is_word (hd (dropWhile is_word w))"
      by (rule hd_dropWhile) (simp add: Cons)
    then have "\<not> is_word c" unfolding Cons by simp
    with l show ?thesis unfolding word_boundary_def Cons by simp
  qed
next
  assume k: "0 < k" "k < length (takeWhile is_word w)"
  have le: "length (takeWhile is_word w) \<le> length w" by (rule length_takeWhile_le)
  have n: "is_word (w ! j)" if "j < length (takeWhile is_word w)" for j
  proof -
    from that have "takeWhile is_word w ! j \<in> set (takeWhile is_word w)" by simp
    then have "is_word (takeWhile is_word w ! j)" by (rule set_takeWhileD[THEN conjunct2])
    with that show ?thesis by (simp add: takeWhile_nth)
  qed
  from k have a: "is_word (w ! (k - 1))" by (intro n) simp
  from k have b: "is_word (w ! k)" by (intro n)
  from k le have "drop k w = w ! k # drop (Suc k) w" by (simp add: Cons_nth_drop_Suc)
  with a b show "\<not> word_boundary (is_word (w ! (k - 1))) (drop k w)"
    by (simp add: word_boundary_def)
qed

lemma set_iter_set: "set (set_iter order xs) = set xs"
  by (simp add: set_iter_def)

lemma check_objects_cases:
  "(\<exists>obj. obj \<in> (\<lambda>g. ''dbo.'' @ g) ` set (OBJ_REF_finditer False q) \<and> not_allowed obj
          \<and> check_objects order q = Inl (HTTPException 403 (''Object not allowed: '' @ obj)))
   \<or> ((\<forall>g \<in> set (OBJ_REF_finditer False q). \<not> not_allowed (''dbo.'' @ g))
        \<and> check_objects order q = Inr ())"
proof (cases "find not_allowed (set_iter order (map (\<lambda>g. ''dbo.'' @ g) (OBJ_REF_finditer False q)))")
  case None
  then have "\<forall>g \<in> set (OBJ_REF_finditer False q). \<not> not_allowed (''dbo.'' @ g)"
    by (auto simp: find_None_iff set_iter_set)
  with None show ?thesis by (simp add: check_objects_def)
next
  case (Some obj)
  then have "not_allowed obj" and "obj \<in> (\<lambda>g. ''dbo.'' @ g) ` set (OBJ_REF_finditer False q)"
    using set_iter_set[of order "map (\<lambda>g. ''dbo.'' @ g) (OBJ_REF_finditer False q)"]
    by (auto simp: find_Some_iff dest: nth_mem)
  with Some show ?thesis by (auto simp: check_objects_def)
qed

lemma allowed_length: "\<not> not_allowed obj \<Longrightarrow> 11 \<le> length obj"
proof -
  have "\<forall>x \<in> ALLOWED_OBJECTS \<union> ALLOWED_PROCS. 11 \<le> length x"
    unfolding ALLOWED_OBJECTS_def ALLOWED_PROCS_def by simp
  then show "\<not> not_allowed obj \<Longrightarrow> 11 \<le> length obj"
    unfolding not_allowed_def by blast
qed

lemma dbo_chars:
  assumes "map py_lower_char ref = ''dbo.''"
  shows "length ref = 4" and "is_word (ref ! 0)" and "is_word (ref ! 1)" and "is_word (ref ! 2)"
    and "\<not> is_word (ref ! 3)" and "ref ! 3 = last ref" and "ref \<noteq> []"
proof -
  from assms have "length (map py_lower_char ref) = length ''dbo.''" by simp
  then show l: "length ref = 4" by simp
  have n: "py_lower_char (ref ! i) = ''dbo.'' ! i" if "i < 4" for i
  proof -
    from that l have "map py_lower_char ref ! i = py_lower_char (ref ! i)" by simp
    with assms show ?thesis by simp
  qed
  have e0: "py_lower_char (ref ! 0) = CHR ''d''" using n[of 0] by simp
  have "is_word (py_lower_char (ref ! 0))" unfolding e0 by (simp add: is_word_Char)
  then show "is_word (ref ! 0)" by (simp add: is_word_lower)
  have e1: "py_lower_char (ref ! 1) = CHR ''b''" using n[of 1] by simp
  have "is_word (py_lower_char (ref ! 1))" unfolding e1 by (simp add: is_word_Char)
  then show "is_word (ref ! 1)" by (simp add: is_word_lower)
  have e2: "py_lower_char (ref ! 2) = CHR ''o''" using n[of 2] by simp
  have "is_word (py_lower_char (ref ! 2))" unfolding e2 by (simp add: is_word_Char)
  then show "is_word (ref ! 2)" by (simp add: is_word_lower)
  have e3: "py_lower_char (ref ! 3) = CHR ''.''" using n[of 3] by simp
  have "\<not> is_word (py_lower_char (ref ! 3))" unfolding e3 by (simp add: is_word_Char)
  then show "\<not> is_word (ref ! 3)" by (simp add: is_word_lower)
  from l show "ref \<noteq> []" by auto
  then show "ref ! 3 = last ref" using l by (simp add: last_conv_nth)
qed


lemma obj_ref_at_Some:
  "obj_ref_at pw s = Some (g, rest) \<Longrightarrow>
     ci_prefix ''dbo.'' s \<and> g = takeWhile is_word (drop 4 s) \<and> rest = dropWhile is_word (drop 4 s)"
  by (auto simp: obj_ref_at_def split: if_splits)

lemma run_then_stop:
  assumes "\<forall>c \<in> set ident. is_word c" and "post = [] \<or> \<not> is_word (hd post)"
  shows "takeWhile is_word (ident @ post) = ident" and "dropWhile is_word (ident @ post) = post"
proof -
  from assms(2) have t: "takeWhile is_word post = []" and d: "dropWhile is_word post = post"
    by (cases post; auto)+
  from assms(1) show "takeWhile is_word (ident @ post) = ident"
    by (simp add: takeWhile_append2 t)
  from assms(1) show "dropWhile is_word (ident @ post) = post"
    by (simp add: dropWhile_append2 d)
qed

lemma obj_ref_at_hit:
  assumes ref: "map py_lower_char ref = ''dbo.''" and ne: "ident \<noteq> []"
    and w: "\<forall>c \<in> set ident. is_word c" and post: "post = [] \<or> \<not> is_word (hd post)"
  shows "obj_ref_at False (ref @ ident @ post) = Some (ident, post)"
proof -
  note d = dbo_chars[OF ref]
  from d(7) d(2) have "is_word (hd ref)" by (simp add: hd_conv_nth)
  with d(7) have b: "word_boundary False (ref @ ident @ post)"
    by (cases ref) (auto simp: word_boundary_def)
  have p: "ci_prefix ''dbo.'' (ref @ ident @ post)"
    using ref d(1) by (simp add: ci_prefix_def)
  have dr: "drop 4 (ref @ ident @ post) = ident @ post" using d(1) by simp
  show ?thesis
    unfolding obj_ref_at_def dr run_then_stop[OF w post] using b p ne by simp
qed

lemma ci_prefix_dbo:
  "ci_prefix ''dbo.'' s = (4 \<le> length s \<and> map py_lower_char (take 4 s) = ''dbo.'')"
proof -
  have "length ''dbo.'' = 4" by simp
  show ?thesis unfolding ci_prefix_def \<open>length ''dbo.'' = 4\<close> ..
qed

lemma short_pre:
  assumes "pre \<noteq> []" and "length pre \<le> 4" and "\<not> is_word (last pre)"
    and "ci_prefix ''dbo.'' (pre @ tail)"
  shows "length pre = 4"
proof (rule ccontr)
  assume "length pre \<noteq> 4"
  with assms(1,2) have k: "0 < length pre" "length pre < 4" by auto
  let ?r = "take 4 (pre @ tail)"
  from assms(4) have m: "map py_lower_char ?r = ''dbo.''" unfolding ci_prefix_dbo by (rule conjunct2)
  note d = dbo_chars[OF m]
  have "last pre = pre ! (length pre - 1)" using assms(1) by (rule last_conv_nth)
  also have "\<dots> = (pre @ tail) ! (length pre - 1)" using k by (simp add: nth_append)
  also have "\<dots> = ?r ! (length pre - 1)" using k by (simp del: take_append)
  finally have l: "last pre = ?r ! (length pre - 1)" .
  from k have "length pre - 1 = 0 \<or> length pre - 1 = 1 \<or> length pre - 1 = 2" by arith
  with d(2,3,4) have "is_word (?r ! (length pre - 1))" by metis
  with l assms(3) show False by simp
qed

lemma finditer_finds:
  assumes ref: "map py_lower_char ref = ''dbo.''" and ne: "ident \<noteq> []"
    and w: "\<forall>c \<in> set ident. is_word c" and post: "post = [] \<or> \<not> is_word (hd post)"
    and bad: "not_allowed (''dbo.'' @ ident)"
  shows "(pre = [] \<longrightarrow> \<not> pw) \<Longrightarrow> (pre \<noteq> [] \<longrightarrow> \<not> is_word (last pre)) \<Longrightarrow>
         \<exists>g \<in> set (OBJ_REF_finditer pw (pre @ ref @ ident @ post)). not_allowed (''dbo.'' @ g)"
proof (induction "length pre" arbitrary: pre pw rule: less_induct)
  case less
  let ?tail = "ref @ ident @ post"
  let ?s = "pre @ ?tail"
  note d = dbo_chars[OF ref]
  show ?case
  proof (cases pre)
    case Nil
    with less.prems have "\<not> pw" by simp
    then have "OBJ_REF_finditer pw ?s = ident # OBJ_REF_finditer True post"
      using Nil obj_ref_at_hit[OF ref ne w post]
      by (subst OBJ_REF_finditer.simps) simp
    with bad show ?thesis by simp
  next
    case (Cons c cs)
    show ?thesis
    proof (cases "obj_ref_at pw ?s")
      case None
      then have f: "OBJ_REF_finditer pw ?s = OBJ_REF_finditer (is_word c) (cs @ ?tail)"
        using Cons by (subst OBJ_REF_finditer.simps) simp
      have "\<exists>g \<in> set (OBJ_REF_finditer (is_word c) (cs @ ?tail)). not_allowed (''dbo.'' @ g)"
      proof (rule less.hyps)
        show "length cs < length pre" using Cons by simp
        show "cs = [] \<longrightarrow> \<not> is_word c" using less.prems(2) Cons by auto
        show "cs \<noteq> [] \<longrightarrow> \<not> is_word (last cs)" using less.prems(2) Cons by auto
      qed
      with f show ?thesis by simp
    next
      case (Some x)
      obtain g rest where x: "x = (g, rest)" by (cases x)
      from Some x have f: "OBJ_REF_finditer pw ?s = g # OBJ_REF_finditer True rest"
        by (subst OBJ_REF_finditer.simps) simp
      from obj_ref_at_Some[OF Some[unfolded x]]
      have p: "ci_prefix ''dbo.'' ?s" and g: "g = takeWhile is_word (drop 4 ?s)"
        and r: "rest = dropWhile is_word (drop 4 ?s)" by simp_all
      from Cons less.prems(2) have pne: "pre \<noteq> []" and lw: "\<not> is_word (last pre)" by simp_all
      show ?thesis
      proof (cases "length pre \<le> 4")
        case True
        from short_pre[OF pne True lw p] have l4: "length pre = 4" .
        then have "drop 4 ?s = ?tail" by simp
        moreover have "last ref \<in> set ref" using d(7) by simp
        moreover have "\<not> is_word (last ref)" using d(5,6) by simp
        ultimately have "g = takeWhile is_word ref"
          unfolding g by (simp add: takeWhile_append1)
        then have "length g \<le> 4" using length_takeWhile_le[of is_word ref] d(1) by simp
        then have "not_allowed (''dbo.'' @ g)" using allowed_length[of "''dbo.'' @ g"] by auto
        with f show ?thesis by simp
      next
        case False
        let ?p4 = "drop 4 pre"
        let ?pre2 = "dropWhile is_word ?p4"
        from False have p4: "?p4 \<noteq> []" by simp
        then have l4: "last ?p4 = last pre" by simp
        from p4 have in4: "last ?p4 \<in> set ?p4" by (rule last_in_set)
        from l4 lw have nw: "\<not> is_word (last ?p4)" by simp
        from False have "drop 4 ?s = ?p4 @ ?tail" by simp
        then have r2: "rest = ?pre2 @ ?tail"
          unfolding r using in4 nw by (simp add: dropWhile_append1)
        have ne2: "?pre2 \<noteq> []" using in4 nw by (auto simp: dropWhile_eq_Nil_conv)
        then have last2: "last ?pre2 = last pre" using l4 by (simp add: dropWhile_last)
        have "\<exists>g \<in> set (OBJ_REF_finditer True (?pre2 @ ?tail)). not_allowed (''dbo.'' @ g)"
        proof (rule less.hyps)
          have "length ?pre2 \<le> length ?p4" by (rule length_dropWhile_le)
          then show "length ?pre2 < length pre" using pne by (cases pre) auto
          show "?pre2 = [] \<longrightarrow> \<not> True" using ne2 by simp
          show "?pre2 \<noteq> [] \<longrightarrow> \<not> is_word (last ?pre2)" using last2 lw by simp
        qed
        with f r2 show ?thesis by auto
      qed
    qed
  qed
qed


lemma space_lower: "py_isspace c \<Longrightarrow> py_lower_char c = c"
proof (cases c)
  case (Char b0 b1 b2 b3 b4 b5 b6 b7)
  assume "py_isspace c"
  then show ?thesis unfolding Char
    by (cases b0; cases b1; cases b2; cases b3; cases b4; cases b5; cases b6; cases b7;
        simp add: py_isspace_Char py_lower_char_Char)
qed

lemma dbo_not_space:
  assumes "map py_lower_char ref = ''dbo.''"
  shows "\<forall>c \<in> set ref. \<not> py_isspace c"
proof
  fix c assume c: "c \<in> set ref"
  show "\<not> py_isspace c"
  proof
    assume sp: "py_isspace c"
    from c have "py_lower_char c \<in> set (map py_lower_char ref)" by simp
    with assms sp have "c \<in> set ''dbo.''" by (simp add: space_lower)
    with sp show False by (auto simp: py_isspace_Char)
  qed
qed

lemma validate_query_stages:
  assumes "py_strip qtext \<noteq> []" and "\<not> FORBIDDEN_search False (py_strip qtext)"
    and "head_verb qtext \<in> ALLOWED_VERBS"
  shows "validate_query order qtext =
           (case check_objects order (py_strip qtext) of
              Inl e \<Rightarrow> Inl e
            | Inr u \<Rightarrow> check_exec (head_verb qtext) (py_strip qtext))"
  using assms unfolding head_verb_def
  by (simp add: validate_query_def Let_def split_first_strip)

text \<open>An occurrence of \<open>dbo.ident\<close> at a word boundary, \<open>ident\<close> being the whole run of
  word characters, survives the trimming and is met by the scan, or lies behind a match
  \<open>dbo.dbo\<close> that is not allowed either.\<close>

lemma reference_scanned:
  assumes q: "qtext = pre @ ref @ ident @ post"
    and ref: "map py_lower_char ref = ''dbo.''"
    and ne: "ident \<noteq> []" and w: "\<forall>c \<in> set ident. is_word c"
    and pre: "pre = [] \<or> \<not> is_word (last pre)"
    and post: "post = [] \<or> \<not> is_word (hd post)"
    and bad: "not_allowed (''dbo.'' @ ident)"
  shows "py_strip qtext \<noteq> []"
    and "\<exists>g \<in> set (OBJ_REF_finditer False (py_strip qtext)). not_allowed (''dbo.'' @ g)"
proof -
  let ?mid = "ref @ ident"
  have mne: "?mid \<noteq> []" using ne by simp
  have ns: "\<forall>c \<in> set ?mid. \<not> py_isspace c"
    using dbo_not_space[OF ref] w by (auto dest: word_not_space)
  from strip_around[OF mne ns, of pre post] obtain pre' post' where
    s: "py_strip qtext = pre' @ ?mid @ post'"
    and p1: "pre' = [] \<or> (pre \<noteq> [] \<and> last pre' = last pre)"
    and p2: "post' = [] \<or> (post \<noteq> [] \<and> hd post' = hd post)"
    unfolding q by auto
  from s ne show "py_strip qtext \<noteq> []" by simp
  from p2 post have post': "post' = [] \<or> \<not> is_word (hd post')" by auto
  from p1 pre have pre': "pre' \<noteq> [] \<longrightarrow> \<not> is_word (last pre')" by auto
  have "\<exists>g \<in> set (OBJ_REF_finditer False (pre' @ ref @ ident @ post')). not_allowed (''dbo.'' @ g)"
    using pre' by (intro finditer_finds[OF ref ne w post' bad]) auto
  then show "\<exists>g \<in> set (OBJ_REF_finditer False (py_strip qtext)). not_allowed (''dbo.'' @ g)"
    unfolding s by simp
qed

lemma reference_rejected:
  assumes q: "qtext = pre @ ref @ ident @ post"
    and ref: "map py_lower_char ref = ''dbo.''"
    and ne: "ident \<noteq> []" and w: "\<forall>c \<in> set ident. is_word c"
    and pre: "pre = [] \<or> \<not> is_word (last pre)"
    and post: "post = [] \<or> \<not> is_word (hd post)"
    and bad: "not_allowed (''dbo.'' @ ident)"
    and nf: "\<not> FORBIDDEN_search False (py_strip qtext)"
    and hv: "head_verb qtext \<in> ALLOWED_VERBS"
  shows "\<exists>obj. not_allowed obj
           \<and> obj \<in> (\<lambda>g. ''dbo.'' @ g) ` set (OBJ_REF_finditer False (py_strip qtext))
           \<and> validate_query order qtext = Inl (HTTPException 403 (''Object not allowed: '' @ obj))"
proof -
  note sc = reference_scanned[OF q ref ne w pre post bad]
  from check_objects_cases[of "py_strip qtext" order] sc(2)
  obtain obj where o: "obj \<in> (\<lambda>g. ''dbo.'' @ g) ` set (OBJ_REF_finditer False (py_strip qtext))"
      "not_allowed obj"
      "check_objects order (py_strip qtext) = Inl (HTTPException 403 (''Object not allowed: '' @ obj))"
    by blast
  from validate_query_stages[OF sc(1) nf hv, of order] o(3)
  have "validate_query order qtext = Inl (HTTPException 403 (''Object not allowed: '' @ obj))"
    by simp
  with o show ?thesis by blast
qed

text \<open>
  Claim C2, as the code has it. Let a query text, not empty, without forbidden keyword and
  with an allowed head verb, contain at a word boundary the qualifier dbo (in any letter
  case), a dot, and an identifier (the whole run of word characters) such that \<open>dbo.\<close>
  followed by the identifier is in neither allow-list. Then the validator rejects with the
  403 \<open>Object not allowed\<close> naming one of the scanned dbo references that is in neither
  allow-list, wherever in the text the reference stands; it names that very object when it
  is the only scanned reference that is not allowed.
\<close>

theorem disallowed_reference_rejected:
  assumes "qtext = pre @ ref @ ident @ post"
    and "py_lower ref = ''dbo.''"
    and "ident \<noteq> []" and "\<forall>c \<in> set ident. is_word c"
    and "pre = [] \<or> \<not> is_word (last pre)"
    and "post = [] \<or> \<not> is_word (hd post)"
    and "not_allowed (''dbo.'' @ ident)"
    and "\<not> FORBIDDEN_search False (py_strip qtext)"
    and "head_verb qtext \<in> ALLOWED_VERBS"
  shows "(\<exists>obj. not_allowed obj
           \<and> obj \<in> (\<lambda>g. ''dbo.'' @ g) ` set (OBJ_REF_finditer False (py_strip qtext))
           \<and> validate_query order qtext = Inl (HTTPException 403 (''Object not allowed: '' @ obj)))
       \<and> ((\<forall>g \<in> set (OBJ_REF_finditer False (py_strip qtext)).
              not_allowed (''dbo.'' @ g) \<longrightarrow> g = ident) \<longrightarrow>
            validate_query order qtext =
              Inl (HTTPException 403 (''Object not allowed: '' @ ''dbo.'' @ ident)))"
proof -
  from assms(2) have ref: "map py_lower_char ref = ''dbo.''" by (simp add: py_lower_def)
  note r = reference_rejected[OF assms(1) ref assms(3-9), of order]
  show ?thesis
  proof (intro conjI impI)
    show "\<exists>obj. not_allowed obj
           \<and> obj \<in> (\<lambda>g. ''dbo.'' @ g) ` set (OBJ_REF_finditer False (py_strip qtext))
           \<and> validate_query order qtext = Inl (HTTPException 403 (''Object not allowed: '' @ obj))"
      by (rule r)
  next
    assume only: "\<forall>g \<in> set (OBJ_REF_finditer False (py_strip qtext)).
              not_allowed (''dbo.'' @ g) \<longrightarrow> g = ident"
    from r obtain obj where o: "not_allowed obj"
      "obj \<in> (\<lambda>g. ''dbo.'' @ g) ` set (OBJ_REF_finditer False (py_strip qtext))"
      "validate_query order qtext = Inl (HTTPException 403 (''Object not allowed: '' @ obj))"
      by blast
    from o(2) obtain g where g: "g \<in> set (OBJ_REF_finditer False (py_strip qtext))"
      "obj = ''dbo.'' @ g" by blast
    with o(1) only have "g = ident" by blast
    with g(2) o(3) show "validate_query order qtext =
              Inl (HTTPException 403 (''Object not allowed: '' @ ''dbo.'' @ ident))" by simp
  qed
qed

theorem disallowed_reference_rejected_witness:
  "''select * from dbo.AppMeta where k in (select k from DBO.Secret)''
     = ''select * from dbo.AppMeta where k in (select k from '' @ ''DBO.'' @ ''Secret'' @ '')''
   \<and> py_lower ''DBO.'' = ''dbo.''
   \<and> list_all is_word ''Secret''
   \<and> \<not> is_word (last ''select * from dbo.AppMeta where k in (select k from '')
   \<and> \<not> is_word (hd '')'')
   \<and> not_allowed (''dbo.'' @ ''Secret'')
   \<and> \<not> FORBIDDEN_search False
         (py_strip ''select * from dbo.AppMeta where k in (select k from DBO.Secret)'')
   \<and> head_verb ''select * from dbo.AppMeta where k in (select k from DBO.Secret)''
         \<in> ALLOWED_VERBS
   \<and> validate_query length ''select * from dbo.AppMeta where k in (select k from DBO.Secret)''
       = Inl (HTTPException 403 ''Object not allowed: dbo.Secret'')"
proof -
  let ?q = "''select * from dbo.AppMeta where k in (select k from DBO.Secret)''"
  have a: "?q = ''select * from dbo.AppMeta where k in (select k from '' @ ''DBO.'' @ ''Secret'' @ '')''"
    by simp
  have b: "py_lower ''DBO.'' = ''dbo.''" by code_simp
  have c: "''Secret'' \<noteq> []" by simp
  have d: "\<forall>c \<in> set ''Secret''. is_word c" by code_simp
  have e: "\<not> is_word (last ''select * from dbo.AppMeta where k in (select k from '')"
    by code_simp
  have f: "\<not> is_word (hd '')'')" by code_simp
  have g: "not_allowed (''dbo.'' @ ''Secret'')" by code_simp
  have h: "\<not> FORBIDDEN_search False (py_strip ?q)" by code_simp
  have i: "head_verb ?q \<in> ALLOWED_VERBS" by code_simp
  have j: "\<forall>g \<in> set (OBJ_REF_finditer False (py_strip ?q)).
             not_allowed (''dbo.'' @ g) \<longrightarrow> g = ''Secret''" by code_simp
  from disallowed_reference_rejected[OF a b c d disjI2[OF e] disjI2[OF f] g h i, of length,
      THEN conjunct2, THEN mp, OF j]
  have k: "validate_query length ?q = Inl (HTTPException 403 ''Object not allowed: dbo.Secret'')"
    by simp
  have d': "list_all is_word ''Secret''" using d by (simp add: list_all_iff)
  from a b d' e f g h i k show ?thesis by (intro conjI)
qed

text \<open>
  Claim C2 as stated fails: only references qualified by dbo are scanned. A reference
  qualified by another schema is in neither allow-list and the text is accepted.
\<close>

theorem other_schema_counterexample:
  "validate_query length ''select name from sys.objects'' = Inr ()"
  by code_simp

section \<open>The procedure check of an exec\<close>

text \<open>
  Claim C3, where the code departs from it. The pattern of the procedure reference is looked
  for anywhere in the text, not after the head verb: in this text the head verb is
  \<open>exec\<close>, the procedure executed first is \<open>sp_who\<close>, which is not in the procedure
  allow-list, and the validator accepts the text because a later \<open>exec\<close> names an allowed
  procedure.
\<close>

theorem exec_later_reference_accepted:
  "head_verb ''exec sp_who; exec dbo.sp_ItemaOtomatikAyar'' = ''exec''
   \<and> EXEC_REF_search False ''exec sp_who; exec dbo.sp_ItemaOtomatikAyar''
       = Some ''dbo.sp_ItemaOtomatikAyar''
   \<and> validate_query length ''exec sp_who; exec dbo.sp_ItemaOtomatikAyar'' = Inr ()"
  by code_simp

section \<open>Letter case of the identifier\<close>

lemma reference_rejected_named:
  assumes q: "qtext = pre @ ref @ ident @ post"
    and ref: "map py_lower_char ref = ''dbo.''"
    and ne: "ident \<noteq> []" and w: "\<forall>c \<in> set ident. is_word c"
    and pre: "pre = [] \<or> \<not> is_word (last pre)"
    and post: "post = [] \<or> \<not> is_word (hd post)"
    and bad: "not_allowed (''dbo.'' @ ident)"
    and nf: "\<not> FORBIDDEN_search False (py_strip qtext)"
    and hv: "head_verb qtext \<in> ALLOWED_VERBS"
    and only: "\<forall>g \<in> set (OBJ_REF_finditer False (py_strip qtext)).
              not_allowed (''dbo.'' @ g) \<longrightarrow> g = ident"
  shows "validate_query order qtext =
           Inl (HTTPException 403 (''Object not allowed: '' @ ''dbo.'' @ ident))"
proof -
  from reference_rejected[OF q ref ne w pre post bad nf hv, of order]
  obtain obj where o: "not_allowed obj"
      "obj \<in> (\<lambda>g. ''dbo.'' @ g) ` set (OBJ_REF_finditer False (py_strip qtext))"
      "validate_query order qtext = Inl (HTTPException 403 (''Object not allowed: '' @ obj))"
    by blast
  from o(2) obtain g where g: "g \<in> set (OBJ_REF_finditer False (py_strip qtext))"
    "obj = ''dbo.'' @ g" by blast
  with o(1) only have "g = ident" by blast
  with g(2) o(3) show ?thesis by simp
qed

lemma allowed_idents:
  "(\<not> not_allowed (''dbo.'' @ x)) =
     (x \<in> set [''AppMeta'', ''Snapshots'', ''NoteRules'', ''AppUsers'', ''AppLookupValues'',
               ''UstaDefteri'', ''TipBuzulmeModel'', ''LoomCutMap'', ''TypeSelvedgeMap'',
               ''BlockedLooms'', ''DummyLooms'', ''ItemaAyar'', ''sp_ItemaOtomatikAyar'',
               ''sp_ItemaTipOzelAyar''])"
  by (auto simp: not_allowed_def ALLOWED_OBJECTS_def ALLOWED_PROCS_def)

lemma allowed_idents_lower_distinct:
  "distinct (map py_lower
     [''AppMeta'', ''Snapshots'', ''NoteRules'', ''AppUsers'', ''AppLookupValues'',
      ''UstaDefteri'', ''TipBuzulmeModel'', ''LoomCutMap'', ''TypeSelvedgeMap'',
      ''BlockedLooms'', ''DummyLooms'', ''ItemaAyar'', ''sp_ItemaOtomatikAyar'',
      ''sp_ItemaTipOzelAyar''])"
  by code_simp

lemma allowed_idents_words:
  "\<forall>x \<in> set [''AppMeta'', ''Snapshots'', ''NoteRules'', ''AppUsers'', ''AppLookupValues'',
      ''UstaDefteri'', ''TipBuzulmeModel'', ''LoomCutMap'', ''TypeSelvedgeMap'',
      ''BlockedLooms'', ''DummyLooms'', ''ItemaAyar'', ''sp_ItemaOtomatikAyar'',
      ''sp_ItemaTipOzelAyar'']. x \<noteq> [] \<and> (\<forall>c \<in> set x. is_word c)"
  by code_simp

text \<open>No two allowed names differ only in letter case: another casing of an allowed name
  is not allowed.\<close>

lemma case_variant_not_allowed:
  assumes "\<not> not_allowed (''dbo.'' @ canon)" and "py_lower ident = py_lower canon"
    and "ident \<noteq> canon"
  shows "not_allowed (''dbo.'' @ ident)"
proof (rule ccontr)
  assume "\<not> not_allowed (''dbo.'' @ ident)"
  then have i: "ident \<in> set [''AppMeta'', ''Snapshots'', ''NoteRules'', ''AppUsers'', ''AppLookupValues'',
               ''UstaDefteri'', ''TipBuzulmeModel'', ''LoomCutMap'', ''TypeSelvedgeMap'',
               ''BlockedLooms'', ''DummyLooms'', ''ItemaAyar'', ''sp_ItemaOtomatikAyar'',
               ''sp_ItemaTipOzelAyar'']"
    unfolding allowed_idents .
  from assms(1) have c: "canon \<in> set [''AppMeta'', ''Snapshots'', ''NoteRules'', ''AppUsers'', ''AppLookupValues'',
               ''UstaDefteri'', ''TipBuzulmeModel'', ''LoomCutMap'', ''TypeSelvedgeMap'',
               ''BlockedLooms'', ''DummyLooms'', ''ItemaAyar'', ''sp_ItemaOtomatikAyar'',
               ''sp_ItemaTipOzelAyar'']"
    unfolding allowed_idents .
  from allowed_idents_lower_distinct
  have inj: "inj_on py_lower (set [''AppMeta'', ''Snapshots'', ''NoteRules'', ''AppUsers'', ''AppLookupValues'',
               ''UstaDefteri'', ''TipBuzulmeModel'', ''LoomCutMap'', ''TypeSelvedgeMap'',
               ''BlockedLooms'', ''DummyLooms'', ''ItemaAyar'', ''sp_ItemaOtomatikAyar'',
               ''sp_ItemaTipOzelAyar''])"
    unfolding distinct_map by (rule conjunct2)
  from inj_onD[OF inj assms(2) i c] assms(3) show False by simp
qed

lemma case_variant_word:
  assumes "\<not> not_allowed (''dbo.'' @ canon)" and "py_lower ident = py_lower canon"
  shows "ident \<noteq> []" and "\<forall>c \<in> set ident. is_word c"
proof -
  from assms(1) allowed_idents_words have c: "canon \<noteq> []" "\<forall>c \<in> set canon. is_word c"
    unfolding allowed_idents by blast+
  from assms(2) have m: "map py_lower_char ident = map py_lower_char canon"
    by (simp add: py_lower_def)
  then have "length ident = length canon" by (rule map_eq_imp_length_eq)
  with c(1) show "ident \<noteq> []" by auto
  from c(2) have "\<forall>c \<in> set (map py_lower_char canon). is_word c"
    by (simp add: is_word_lower)
  from lowered_word_chars[OF m this] show "\<forall>c \<in> set ident. is_word c" .
qed

text \<open>
  Claim C10, as the code has it. The scan matches the qualifier dbo in any letter case, but
  membership in the allow-lists is decided on \<open>dbo.\<close> followed by the identifier in the
  letter case written. So a query (not empty, without forbidden keyword, with an allowed head
  verb, \<open>exec\<close> included) that references an allowed object or procedure with another
  casing of the identifier is rejected with the 403 \<open>Object not allowed\<close>, naming that
  reference when it is the only scanned one that is not allowed; and the object check passes
  exactly when every scanned reference is allowed as written, which the canonical casing is.
\<close>

theorem case_variant_rejected:
  assumes "qtext = pre @ ref @ ident @ post"
    and "py_lower ref = ''dbo.''"
    and "pre = [] \<or> \<not> is_word (last pre)"
    and "post = [] \<or> \<not> is_word (hd post)"
    and "\<not> not_allowed (''dbo.'' @ canon)"
    and "py_lower ident = py_lower canon" and "ident \<noteq> canon"
    and "\<not> FORBIDDEN_search False (py_strip qtext)"
    and "head_verb qtext \<in> ALLOWED_VERBS"
  shows "not_allowed (''dbo.'' @ ident)
       \<and> (\<exists>obj. not_allowed obj
           \<and> obj \<in> (\<lambda>g. ''dbo.'' @ g) ` set (OBJ_REF_finditer False (py_strip qtext))
           \<and> validate_query order qtext = Inl (HTTPException 403 (''Object not allowed: '' @ obj)))
       \<and> ((\<forall>g \<in> set (OBJ_REF_finditer False (py_strip qtext)).
              not_allowed (''dbo.'' @ g) \<longrightarrow> g = ident) \<longrightarrow>
            validate_query order qtext =
              Inl (HTTPException 403 (''Object not allowed: '' @ ''dbo.'' @ ident)))
       \<and> ((check_objects order (py_strip (pre @ ref @ canon @ post)) = Inr ())
            = (\<forall>g \<in> set (OBJ_REF_finditer False (py_strip (pre @ ref @ canon @ post))).
                 \<not> not_allowed (''dbo.'' @ g)))"
proof -
  from assms(2) have ref: "map py_lower_char ref = ''dbo.''" by (simp add: py_lower_def)
  note bad = case_variant_not_allowed[OF assms(5,6,7)]
  note wd = case_variant_word[OF assms(5,6)]
  have 1: "\<exists>obj. not_allowed obj
           \<and> obj \<in> (\<lambda>g. ''dbo.'' @ g) ` set (OBJ_REF_finditer False (py_strip qtext))
           \<and> validate_query order qtext = Inl (HTTPException 403 (''Object not allowed: '' @ obj))"
    by (rule reference_rejected[OF assms(1) ref wd assms(3,4) bad assms(8,9)])
  have 2: "(\<forall>g \<in> set (OBJ_REF_finditer False (py_strip qtext)).
              not_allowed (''dbo.'' @ g) \<longrightarrow> g = ident) \<longrightarrow>
            validate_query order qtext =
              Inl (HTTPException 403 (''Object not allowed: '' @ ''dbo.'' @ ident))"
    using reference_rejected_named[OF assms(1) ref wd assms(3,4) bad assms(8,9)] by blast
  have 3: "(check_objects order (py_strip (pre @ ref @ canon @ post)) = Inr ())
            = (\<forall>g \<in> set (OBJ_REF_finditer False (py_strip (pre @ ref @ canon @ post))).
                 \<not> not_allowed (''dbo.'' @ g))"
    using check_objects_cases[of "py_strip (pre @ ref @ canon @ post)" order] by auto
  from bad 1 2 3 show ?thesis by (intro conjI)
qed

theorem case_variant_rejected_witness:
  "''select * from dbo.APPMETA'' = ''select * from '' @ ''dbo.'' @ ''APPMETA'' @ []
   \<and> py_lower ''dbo.'' = ''dbo.''
   \<and> \<not> is_word (last ''select * from '')
   \<and> \<not> not_allowed (''dbo.'' @ ''AppMeta'')
   \<and> py_lower ''APPMETA'' = py_lower ''AppMeta''
   \<and> ''APPMETA'' \<noteq> ''AppMeta''
   \<and> \<not> FORBIDDEN_search False (py_strip ''select * from dbo.APPMETA'')
   \<and> head_verb ''select * from dbo.APPMETA'' \<in> ALLOWED_VERBS
   \<and> validate_query length ''select * from dbo.APPMETA''
       = Inl (HTTPException 403 ''Object not allowed: dbo.APPMETA'')
   \<and> check_objects length (py_strip ''select * from dbo.AppMeta'') = Inr ()
   \<and> validate_query length ''select * from dbo.AppMeta'' = Inr ()"
proof -
  let ?q = "''select * from dbo.APPMETA''"
  have a: "?q = ''select * from '' @ ''dbo.'' @ ''APPMETA'' @ []" by simp
  have b: "py_lower ''dbo.'' = ''dbo.''" by code_simp
  have c: "\<not> is_word (last ''select * from '')" by code_simp
  have d: "\<not> not_allowed (''dbo.'' @ ''AppMeta'')" by code_simp
  have e: "py_lower ''APPMETA'' = py_lower ''AppMeta''" by code_simp
  have f: "''APPMETA'' \<noteq> ''AppMeta''" by simp
  have g: "\<not> FORBIDDEN_search False (py_strip ?q)" by code_simp
  have h: "head_verb ?q \<in> ALLOWED_VERBS" by code_simp
  have i: "\<forall>g \<in> set (OBJ_REF_finditer False (py_strip ?q)).
             not_allowed (''dbo.'' @ g) \<longrightarrow> g = ''APPMETA''" by code_simp
  have j: "\<forall>g \<in> set (OBJ_REF_finditer False (py_strip (''select * from '' @ ''dbo.'' @ ''AppMeta'' @ []))).
             \<not> not_allowed (''dbo.'' @ g)" by code_simp
  note t = case_variant_rejected[OF a b disjI2[OF c] disjI1[OF refl] d e f g h, of length]
  from t[THEN conjunct2, THEN conjunct2, THEN conjunct1, THEN mp, OF i]
  have k: "validate_query length ?q = Inl (HTTPException 403 ''Object not allowed: dbo.APPMETA'')"
    by simp
  from t[THEN conjunct2, THEN conjunct2, THEN conjunct2] j
  have l: "check_objects length (py_strip ''select * from dbo.AppMeta'') = Inr ()" by simp
  have m: "validate_query length ''select * from dbo.AppMeta'' = Inr ()" by code_simp
  from a b c d e f g h k l m show ?thesis by (intro conjI)
qed

text \<open>
  Claim C10 as stated fails for the target of an \<open>exec\<close>: the object check comes before
  the procedure check, so another casing of the procedure name is answered by
  \<open>Object not allowed\<close>, not by \<open>Procedure not allowed\<close>.
\<close>

theorem exec_case_variant_counterexample:
  "validate_query length ''exec dbo.sp_itemaotomatikayar''
     = Inl (HTTPException 403 ''Object not allowed: dbo.sp_itemaotomatikayar'')
   \<and> validate_query length ''exec dbo.sp_itemaotomatikayar''
     \<noteq> Inl (HTTPException 403 ''Procedure not allowed: dbo.sp_itemaotomatikayar'')"
  by code_simp

end
